theory Spec2Isabelle
  imports Complex_Main "HOL-Library.AList"
begin

section \<open>Shared data: errors, log-probabilities, sequences\<close>

text \<open>
  Every \<^verbatim>\<open>Assert\<close>, \<^verbatim>\<open>Abort\<close> and guarded vector access of the C++ sources ends the
  run; in the model each is a value of \<open>error\<close>, and a function that can fail returns
  \<open>error + 'a\<close> with \<open>Inl\<close> for the failure.
\<close>

datatype error =
    DuplicateSequenceName string
  | ZeroLikelihood
  | OutOfRange
  | AllocationFailed
  | SeqCoordsInconsistent
  | NeitherWaitNorReady
  | TreeError

text \<open>
  \<^verbatim>\<open>LogProb\<close> is a C++ \<^verbatim>\<open>double\<close> holding a logarithm: either minus infinity or a finite
  number. Finite values are taken as exact reals.
\<close>

datatype LogProb = NegInf | LP real

record FastSeq =
  name :: string
  seq :: string

section \<open>Dataset preparation (recon.cpp, \<^verbatim>\<open>Reconstructor::Dataset::prepareRecon\<close>)\<close>

record Dataset =
  seqs :: "FastSeq list"
  seqIndex :: "string \<rightharpoonup> nat"

text \<open>
  The first loop of \<^verbatim>\<open>prepareRecon\<close>:
  \<^verbatim>\<open>for (size_t n = 0; n < seqs.size(); ++n) {
    Assert (seqIndex.find (seqs[n].name) == seqIndex.end(), "Duplicate sequence name %s", ...);
    seqIndex[seqs[n].name] = n; }\<close>
  The list argument is the part of \<open>seqs\<close> not yet visited, \<open>n\<close> the loop counter.
\<close>

fun seqIndexLoop :: "FastSeq list \<Rightarrow> nat \<Rightarrow> (string \<rightharpoonup> nat) \<Rightarrow> error + (string \<rightharpoonup> nat)" where
  "seqIndexLoop [] n idx = Inr idx"
| "seqIndexLoop (s # ss) n idx =
     (if idx (name s) \<noteq> None then Inl (DuplicateSequenceName (name s))
      else seqIndexLoop ss (Suc n) (idx(name s \<mapsto> n)))"

text \<open>
  \<^verbatim>\<open>prepareRecon\<close> up to the end of that loop. \<^verbatim>\<open>tree.validateBranchLengths()\<close> runs
  first and belongs to the tree class, which is not among the sources: its outcome is the
  parameter \<open>validateBranchLengths\<close> (\<open>None\<close> when it passes). The rest of
  \<^verbatim>\<open>prepareRecon\<close> reads \<open>seqIndex\<close> and never writes it.
\<close>

definition prepareRecon :: "error option \<Rightarrow> Dataset \<Rightarrow> error + Dataset" where
  "prepareRecon validateBranchLengths d =
     (case validateBranchLengths of
        Some e \<Rightarrow> Inl e
      | None \<Rightarrow>
          (case seqIndexLoop (seqs d) 0 (seqIndex d) of
             Inl e \<Rightarrow> Inl e
           | Inr idx \<Rightarrow> Inr (d\<lparr>seqIndex := idx\<rparr>)))"

section \<open>The Forward retry loop (recon.cpp, \<^verbatim>\<open>Reconstructor::reconstruct\<close>)\<close>

text \<open>
  The envelope handed to \<^verbatim>\<open>ForwardMatrix\<close>: \<^verbatim>\<open>GuideAlignmentEnvelope()\<close> when the dataset has
  no guide alignment, and \<^verbatim>\<open>GuideAlignmentEnvelope (guide, rowX, rowY, maxDist)\<close> otherwise.
\<close>

datatype GuideAlignmentEnvelope = NoGuideEnvelope | GuideEnvelope int

definition guideEnvelope :: "bool \<Rightarrow> int \<Rightarrow> GuideAlignmentEnvelope" where
  "guideEnvelope guideEmpty maxDist = (if guideEmpty then NoGuideEnvelope else GuideEnvelope maxDist)"

text \<open>
  \<^verbatim>\<open>while (true) {
    forward = new ForwardMatrix (..., guide.empty() ? GuideAlignmentEnvelope() : GuideAlignmentEnvelope (..., maxDist), ...);
    if (forward->lpEnd > -infinity) break;
    if (maxDist < 0) Abort ("Zero forward likelihood even in the absence of guide alignment constraints ...");
    if (maxDist*2 > alignPathColumns(dataset.guide)) maxDist = -1;
    else maxDist *= 2;
  }\<close>
  The Forward matrix is built elsewhere; \<open>lpEnd\<close> gives its final log-likelihood for an
  envelope. The loop may run forever, so the model is a partial function: \<open>None\<close> is
  "never returns". On a normal exit it returns the band in force and the likelihood.
\<close>

partial_function (option) forwardRetry ::
  "(GuideAlignmentEnvelope \<Rightarrow> LogProb) \<Rightarrow> bool \<Rightarrow> nat \<Rightarrow> int \<Rightarrow> (error + int \<times> LogProb) option" where
  "forwardRetry lpEnd guideEmpty cols maxDist =
     (if lpEnd (guideEnvelope guideEmpty maxDist) \<noteq> NegInf
        then Some (Inr (maxDist, lpEnd (guideEnvelope guideEmpty maxDist)))
      else if maxDist < 0 then Some (Inl ZeroLikelihood)
      else if maxDist * 2 > int cols then forwardRetry lpEnd guideEmpty cols (- 1)
      else forwardRetry lpEnd guideEmpty cols (maxDist * 2))"

text \<open>
  The bands the loop visits from a non-zero starting band, in order: doubling while the
  doubled band still fits the guide's column count, then the unguided band \<open>-1\<close>.
\<close>

function bandsTried :: "nat \<Rightarrow> int \<Rightarrow> int list" where
  "bandsTried cols maxDist =
     (if maxDist \<le> 0 then [maxDist]
      else if maxDist * 2 > int cols then [maxDist, - 1]
      else maxDist # bandsTried cols (maxDist * 2))"
  by pat_completeness auto
termination
  by (relation "measure (\<lambda>(cols, maxDist). nat (int cols + 1 - maxDist))") auto

fun firstFinite :: "(GuideAlignmentEnvelope \<Rightarrow> LogProb) \<Rightarrow> bool \<Rightarrow> int list \<Rightarrow> error + int \<times> LogProb" where
  "firstFinite lpEnd guideEmpty [] = Inl ZeroLikelihood"
| "firstFinite lpEnd guideEmpty (b # bs) =
     (if lpEnd (guideEnvelope guideEmpty b) \<noteq> NegInf
        then Inr (b, lpEnd (guideEnvelope guideEmpty b))
      else firstFinite lpEnd guideEmpty bs)"

section \<open>The diagonal envelope (diagenv.cpp)\<close>

subsection \<open>Machine integers\<close>

text \<open>
  The numbers of diagenv.cpp are \<^verbatim>\<open>unsigned int\<close> (\<^verbatim>\<open>kmerLen\<close>, \<^verbatim>\<open>bandSize\<close>, the counts),
  \<^verbatim>\<open>int\<close> (\<^verbatim>\<open>kmerThreshold\<close>, the diagonals), \<^verbatim>\<open>size_t\<close> (\<^verbatim>\<open>cellSize\<close>, \<^verbatim>\<open>maxSize\<close>) and
  \<^verbatim>\<open>SeqIdx\<close> (\<^verbatim>\<open>xLen\<close>, \<^verbatim>\<open>yLen\<close>, the sequence positions), a type of an absent header
  that is taken as \<^verbatim>\<open>unsigned int\<close>, the type it is mixed with in \<^verbatim>\<open>xLen - kmerLen\<close>. An
  \<^verbatim>\<open>unsigned int\<close> has 32 bits, an \<^verbatim>\<open>int\<close> 32 bits in two's complement, a \<^verbatim>\<open>size_t\<close> 64
  bits. The model keeps the values as natural numbers and integers and writes the
  wrap-around out where the source computes: \<open>asUnsigned\<close> is the value of an expression
  of type \<^verbatim>\<open>unsigned int\<close>, \<open>asSize\<close> of one of type \<^verbatim>\<open>size_t\<close>, and \<open>asInt\<close> of one of type
  \<^verbatim>\<open>int\<close>, also of a cast \<^verbatim>\<open>(int) u\<close> (an \<^verbatim>\<open>int\<close> that overflows is taken to wrap). The
  arguments of the functions below are values of their C++ types: lengths, \<open>kmerLen\<close> and
  \<open>bandSize\<close> below \<open>2 ^ 32\<close>, \<open>cellSize\<close> and \<open>maxSize\<close> below \<open>2 ^ 64\<close>.
\<close>

definition asUnsigned :: "int \<Rightarrow> int" where
  "asUnsigned i = i mod 2 ^ 32"

definition asSize :: "int \<Rightarrow> int" where
  "asSize i = i mod 2 ^ 64"

definition asInt :: "int \<Rightarrow> int" where
  "asInt i = (i + 2 ^ 31) mod 2 ^ 32 - 2 ^ 31"

subsection \<open>The data\<close>

text \<open>
  A \<^verbatim>\<open>std::set<int>\<close> is a strictly increasing list; \<^verbatim>\<open>insert\<close> is \<open>insort_insert\<close>, which
  leaves the list alone when the element is there, and \<^verbatim>\<open>size()\<close> is \<open>length\<close>. A loop
  \<^verbatim>\<open>for (int d = lo; d <= hi; ++d) s.insert (d)\<close> is \<open>insertRange lo hi s\<close>.
\<close>

definition insertRange :: "int \<Rightarrow> int \<Rightarrow> int list \<Rightarrow> int list" where
  "insertRange lo hi s = fold insort_insert [lo..hi] s"

text \<open>
  \<^verbatim>\<open>KmerIndex\<close>: the k-mer length, the alphabet, and for each k-mer (a number) the
  positions of the second sequence where it starts.
\<close>

record KmerIndex =
  kmerLen :: nat
  alphabet :: string
  kmerLocations :: "nat \<rightharpoonup> nat list"

text \<open>
  \<^verbatim>\<open>DiagonalEnvelope\<close>. The class is declared in diagenv.h, which is not among the sources;
  the fields are those diagenv.cpp reads and writes.
\<close>

record DiagonalEnvelope =
  px :: FastSeq
  py :: FastSeq
  xLen :: nat
  yLen :: nat
  diagonals :: "int list"
  storageDiagonals :: "int list"
  storageIndex :: "int list"
  storageOffset :: "int list"
  storageSize :: "nat list"
  cumulStorageSize :: "nat list"
  totalStorageSize :: nat

text \<open>
  Modelled from the spec: \<^verbatim>\<open>minDiagonal()\<close> and \<^verbatim>\<open>maxDiagonal()\<close> of diagenv.h. The full
  envelope has "all diagonals \<open>d \<in> [-yLen, xLen]\<close>", which are its storage diagonals, the
  compute diagonals with their one-cell halo: the compute diagonals run from \<open>1 - yLen\<close> to
  \<open>xLen - 1\<close>. These are the \<open>xLen + yLen - 1\<close> diagonals \<^verbatim>\<open>initFull\<close> reserves room for, and
  their halo fills the \<open>xLen + yLen + 1\<close> entries of \<^verbatim>\<open>storageIndex\<close>.
\<close>

definition minDiagonal :: "DiagonalEnvelope \<Rightarrow> int" where
  "minDiagonal env = 1 - int (yLen env)"

definition maxDiagonal :: "DiagonalEnvelope \<Rightarrow> int" where
  "maxDiagonal env = int (xLen env) - 1"

subsection \<open>\<^verbatim>\<open>initStorage\<close>\<close>

text \<open>
  \<^verbatim>\<open>set<int> storageDiags;
  for (auto d : diagonals) { storageDiags.insert (d); storageDiags.insert (d - 1); storageDiags.insert (d + 1); }\<close>
\<close>

definition haloDiagonals :: "int list \<Rightarrow> int list" where
  "haloDiagonals ds =
     fold (\<lambda>d s. insort_insert (d + 1) (insort_insert (d - 1) (insort_insert d s))) ds []"

text \<open>
  \<^verbatim>\<open>for (size_t n = 0; n < storageDiagonals.size(); ++n)
    storageIndex[yLen + storageDiagonals[n]] = (int) n;\<close>
  The vectors are guarded (the build sets \<^verbatim>\<open>USE_VECTOR_GUARDS\<close>), and the index is unsigned:
  an index below zero or past the end stops the run.
\<close>

fun storageIndexLoop :: "nat \<Rightarrow> int list \<Rightarrow> nat \<Rightarrow> int list \<Rightarrow> error + int list" where
  "storageIndexLoop yl [] n idx = Inr idx"
| "storageIndexLoop yl (d # ds) n idx =
     (if 0 \<le> int yl + d \<and> int yl + d < int (length idx)
      then storageIndexLoop yl ds (Suc n) (idx[nat (int yl + d) := int n])
      else Inl OutOfRange)"

text \<open>
  Modelled from the spec: \<^verbatim>\<open>intersects\<close>, \<^verbatim>\<open>storageBeginIntersecting\<close> and
  \<^verbatim>\<open>storageEndIntersecting\<close> of diagenv.h. The spec indexes a diagonal by \<open>d = i - j\<close>, with
  \<open>i\<close> a sequence coordinate of the first profile (\<open>0..xLen\<close>) and \<open>j\<close> one of the second,
  and asks that \<open>storageSize[j]\<close> count the storage diagonals that intersect \<open>j\<close>. So a
  diagonal intersects column \<open>j\<close> when \<open>i = d + j\<close> is a coordinate, and the two iterators
  delimit, in the sorted \<open>storageDiagonals\<close>, the diagonals from \<open>-j\<close> to \<open>xLen - j\<close>: the
  first not below \<open>-j\<close> and the first above \<open>xLen - j\<close>. An iterator is the position it
  points to.
\<close>

definition intersects :: "DiagonalEnvelope \<Rightarrow> nat \<Rightarrow> int \<Rightarrow> bool" where
  "intersects env j d = (0 \<le> d + int j \<and> d + int j \<le> int (xLen env))"

definition storageBeginIntersecting :: "DiagonalEnvelope \<Rightarrow> nat \<Rightarrow> nat" where
  "storageBeginIntersecting env j =
     length (takeWhile (\<lambda>d. d < - int j) (storageDiagonals env))"

definition storageEndIntersecting :: "DiagonalEnvelope \<Rightarrow> nat \<Rightarrow> nat" where
  "storageEndIntersecting env j =
     length (takeWhile (\<lambda>d. d \<le> int (xLen env) - int j) (storageDiagonals env))"

text \<open>
  The body of \<^verbatim>\<open>for (SeqIdx j = 0; j <= yLen; ++j)\<close>:
  \<^verbatim>\<open>storageSize[j] = e - b;
  cumulStorageSize[j] = totalStorageSize;
  totalStorageSize += storageSize[j];
  if (b != e) storageOffset[j] = storageIndex[yLen + *b];\<close>
\<close>

definition storageStep :: "nat \<Rightarrow> DiagonalEnvelope \<Rightarrow> error + DiagonalEnvelope" where
  "storageStep j env =
     (let b = storageBeginIntersecting env j;
          e = storageEndIntersecting env j;
          env1 = env\<lparr>storageSize := (storageSize env)[j := e - b],
                     cumulStorageSize := (cumulStorageSize env)[j := totalStorageSize env],
                     totalStorageSize := totalStorageSize env + (e - b)\<rparr>
      in if b \<noteq> e then
           (let k = int (yLen env) + storageDiagonals env ! b
            in if 0 \<le> k \<and> k < int (length (storageIndex env))
               then Inr (env1\<lparr>storageOffset := (storageOffset env)[j := storageIndex env ! nat k]\<rparr>)
               else Inl OutOfRange)
         else Inr env1)"

fun storageLoop :: "nat list \<Rightarrow> DiagonalEnvelope \<Rightarrow> error + DiagonalEnvelope" where
  "storageLoop [] env = Inr env"
| "storageLoop (j # js) env =
     (case storageStep j env of Inl e \<Rightarrow> Inl e | Inr env' \<Rightarrow> storageLoop js env')"

definition initStorage :: "DiagonalEnvelope \<Rightarrow> error + DiagonalEnvelope" where
  "initStorage env =
     (let sd = haloDiagonals (diagonals env)
      in case storageIndexLoop (yLen env) sd 0 (replicate (xLen env + yLen env + 1) (- 1)) of
           Inl e \<Rightarrow> Inl e
         | Inr idx \<Rightarrow>
             storageLoop [0..<yLen env + 1]
               (env\<lparr>storageDiagonals := sd,
                    storageIndex := idx,
                    storageOffset := replicate (yLen env + 1) (- 1),
                    storageSize := replicate (yLen env + 1) 0,
                    cumulStorageSize := replicate (yLen env + 1) 0,
                    totalStorageSize := 0\<rparr>))"

subsection \<open>\<^verbatim>\<open>initFull\<close>\<close>

text \<open>
  \<^verbatim>\<open>diagonals.clear();
  diagonals.reserve (xLen + yLen - 1);
  for (int d = minDiagonal(); d <= maxDiagonal(); ++d) diagonals.push_back (d);
  initStorage();\<close>
  The argument of \<^verbatim>\<open>reserve\<close> is unsigned: for two empty sequences it wraps around to the
  largest value, and the request for that many entries ends the run. Any other request
  is taken to be granted.
\<close>

definition initFull :: "DiagonalEnvelope \<Rightarrow> error + DiagonalEnvelope" where
  "initFull env =
     (if asUnsigned (int (xLen env) + int (yLen env) - 1) = 4294967295 then Inl AllocationFailed
      else initStorage (env\<lparr>diagonals := [minDiagonal env..maxDiagonal env]\<rparr>))"

subsection \<open>\<^verbatim>\<open>initSparse\<close>\<close>

text \<open>
  The k-mer scan:
  \<^verbatim>\<open>map<int,unsigned int> diagKmerCount;
  for (SeqIdx i = 0; i <= xLen - kmerLen; ++i)
    if (kmerValid (kmerLen, xTok.begin() + i)) {
      const auto yKmerIndexIter = yKmerIndex.kmerLocations.find (makeKmer (kmerLen, xTok.begin() + i, alphabetSize));
      if (yKmerIndexIter != yKmerIndex.kmerLocations.end())
        for (auto j : yKmerIndexIter->second) ++diagKmerCount[get_diag(i,j)];
    }\<close>
  \<^verbatim>\<open>kmerValid\<close> and \<^verbatim>\<open>makeKmer\<close> are declared outside the sources and are parameters; each
  reads \<open>kmerLen\<close> tokens from the iterator, here the window \<open>take kmerLen (drop i xTok)\<close>.
  \<^verbatim>\<open>get_diag(i,j)\<close> is the diagonal \<open>i - j\<close>. The map is an association list;
  \<^verbatim>\<open>++m[d]\<close> enters \<open>d\<close> with count 1 or adds one to its count, an \<^verbatim>\<open>unsigned int\<close>.
\<close>

definition countDiagonal :: "nat \<Rightarrow> nat \<Rightarrow> (int \<times> nat) list \<Rightarrow> (int \<times> nat) list" where
  "countDiagonal i j m =
     AList.map_default (int i - int j) 1 (\<lambda>c. nat (asUnsigned (int c + 1))) m"

fun kmerScan ::
  "(nat \<Rightarrow> int list \<Rightarrow> bool) \<Rightarrow> (nat \<Rightarrow> int list \<Rightarrow> nat \<Rightarrow> nat) \<Rightarrow> int list \<Rightarrow> KmerIndex \<Rightarrow>
   nat list \<Rightarrow> (int \<times> nat) list \<Rightarrow> error + (int \<times> nat) list" where
  "kmerScan kmerValid makeKmer xTok yKmerIndex [] m = Inr m"
| "kmerScan kmerValid makeKmer xTok yKmerIndex (i # is) m =
     (if length xTok < i + kmerLen yKmerIndex then Inl OutOfRange
      else
        (let w = take (kmerLen yKmerIndex) (drop i xTok)
         in if kmerValid (kmerLen yKmerIndex) w then
              (case kmerLocations yKmerIndex
                      (makeKmer (kmerLen yKmerIndex) w (length (alphabet yKmerIndex))) of
                 None \<Rightarrow> kmerScan kmerValid makeKmer xTok yKmerIndex is m
               | Some js \<Rightarrow>
                   kmerScan kmerValid makeKmer xTok yKmerIndex is (fold (countDiagonal i) js m))
            else kmerScan kmerValid makeKmer xTok yKmerIndex is m))"

text \<open>
  The loop bound \<^verbatim>\<open>xLen - kmerLen\<close> is unsigned (\<^verbatim>\<open>kmerLen\<close> is an \<^verbatim>\<open>unsigned int\<close>): for
  \<open>xLen < kmerLen\<close> it wraps around and the first window already leaves \<open>xTok\<close>.
\<close>

definition diagKmerCount ::
  "(nat \<Rightarrow> int list \<Rightarrow> bool) \<Rightarrow> (nat \<Rightarrow> int list \<Rightarrow> nat \<Rightarrow> nat) \<Rightarrow> int list \<Rightarrow> DiagonalEnvelope \<Rightarrow>
   KmerIndex \<Rightarrow> error + (int \<times> nat) list" where
  "diagKmerCount kmerValid makeKmer xTok env yKmerIndex =
     (if xLen env < kmerLen yKmerIndex then Inl OutOfRange
      else kmerScan kmerValid makeKmer xTok yKmerIndex [0..<xLen env - kmerLen yKmerIndex + 1] [])"

text \<open>
  \<^verbatim>\<open>map<unsigned int,set<unsigned int> > countDistrib;
  for (const auto& diagKmerCountElt : diagKmerCount)
    countDistrib[diagKmerCountElt.second].insert (diagKmerCountElt.first);\<close>
  and the order \<^verbatim>\<open>crbegin() .. crend()\<close> in which the buckets are visited: by falling
  count. A bucket is a \<^verbatim>\<open>set<unsigned int>\<close>: it holds each diagonal converted to
  \<^verbatim>\<open>unsigned int\<close>, in the order of these values.
\<close>

definition countDistrib :: "(int \<times> nat) list \<Rightarrow> (nat \<times> int list) list" where
  "countDistrib m =
     fold (\<lambda>(d, c) cd. AList.map_default c [asUnsigned d] (insort_insert (asUnsigned d)) cd) m []"

definition bucketsDescending :: "(nat \<times> int list) list \<Rightarrow> (nat \<times> int list) list" where
  "bucketsDescending cd = rev (sort_key fst cd)"

text \<open>
  The local variables of the bucket loop. \<open>threshold\<close> is an \<^verbatim>\<open>unsigned int\<close>, kept as the
  integer it holds; it starts at \<^verbatim>\<open>numeric_limits<unsigned int>::max()\<close>.
\<close>

record SeedState =
  diags :: "int list"
  storageDiags :: "int list"
  nPastThreshold :: nat
  threshold :: int
  foundThreshold :: bool

text \<open>
  The body of \<^verbatim>\<open>for (auto seedDiag : countDistribIter->second)\<close>:
  \<^verbatim>\<open>++moreNPastThreshold;
  const int dMin = max (minDiagonal(), (int) seedDiag - (int) halfBandSize);
  const int dMax = min (maxDiagonal(), (int) seedDiag + (int) halfBandSize);
  for (int d = dMin; d <= dMax; ++d) moreDiags.insert (d);
  for (int d = dMin - 1; d <= dMax + 1; ++d) moreStorageDiags.insert (d);\<close>
  \<open>seedDiag\<close> is the \<^verbatim>\<open>unsigned int\<close> of the bucket and \<open>halfBandSize\<close> an \<^verbatim>\<open>unsigned int\<close>;
  both are cast to \<^verbatim>\<open>int\<close> and added or subtracted as \<^verbatim>\<open>int\<close>.
\<close>

definition absorbSeed :: "DiagonalEnvelope \<Rightarrow> nat \<Rightarrow> int \<Rightarrow> SeedState \<Rightarrow> SeedState" where
  "absorbSeed env halfBandSize seedDiag st =
     (let dMin = max (minDiagonal env) (asInt (asInt seedDiag - asInt (int halfBandSize)));
          dMax = min (maxDiagonal env) (asInt (asInt seedDiag + asInt (int halfBandSize)))
      in st\<lparr>diags := insertRange dMin dMax (diags st),
             storageDiags := insertRange (dMin - 1) (dMax + 1) (storageDiags st),
             nPastThreshold := Suc (nPastThreshold st)\<rparr>)"

text \<open>
  The bucket loop. A \<^verbatim>\<open>break\<close> returns the state as it stands:
  \<^verbatim>\<open>if (kmerThreshold >= 0 && countDistribIter->first < kmerThreshold) break;
  ... absorb every seed of the bucket into moreDiags, moreStorageDiags ...
  if (kmerThreshold < 0) {
    if (moreStorageDiags.size() * diagSize >= maxSize) break;
    threshold = countDistribIter->first;
    foundThreshold = true;
  }
  swap (diags, moreDiags); swap (storageDiags, moreStorageDiags); nPastThreshold = moreNPastThreshold;\<close>
  \<open>absorbBucket\<close> is the inner loop over the seeds of one bucket. The product
  \<^verbatim>\<open>moreStorageDiags.size() * diagSize\<close> is a \<^verbatim>\<open>size_t\<close>.
\<close>

definition absorbBucket :: "DiagonalEnvelope \<Rightarrow> nat \<Rightarrow> int list \<Rightarrow> SeedState \<Rightarrow> SeedState" where
  "absorbBucket env halfBandSize seeds st = fold (absorbSeed env halfBandSize) seeds st"

fun absorbBuckets ::
  "DiagonalEnvelope \<Rightarrow> nat \<Rightarrow> int \<Rightarrow> int \<Rightarrow> nat \<Rightarrow> (nat \<times> int list) list \<Rightarrow> SeedState \<Rightarrow> SeedState" where
  "absorbBuckets env halfBandSize kmerThreshold diagSize maxSize [] st = st"
| "absorbBuckets env halfBandSize kmerThreshold diagSize maxSize ((cnt, seeds) # rest) st =
     (if 0 \<le> kmerThreshold \<and> int cnt < kmerThreshold then st
      else
        (let more = absorbBucket env halfBandSize seeds st
         in if kmerThreshold < 0 then
              (if int maxSize \<le> asSize (int (length (storageDiags more)) * diagSize) then st
               else absorbBuckets env halfBandSize kmerThreshold diagSize maxSize rest
                      (more\<lparr>threshold := int cnt, foundThreshold := True\<rparr>))
            else absorbBuckets env halfBandSize kmerThreshold diagSize maxSize rest more))"

text \<open>
  The state before the loop: diagonal 0 is in both sets ("always add the zeroth diagonal to
  ensure at least one path exists"), the threshold is the configured one or, in
  memory-bound mode, not found yet.
\<close>

definition initialSeeds :: "int \<Rightarrow> SeedState" where
  "initialSeeds kmerThreshold =
     \<lparr>diags = [0], storageDiags = [0], nPastThreshold = 0,
      threshold = (if 0 \<le> kmerThreshold then kmerThreshold else 4294967295),
      foundThreshold = (0 \<le> kmerThreshold)\<rparr>"

text \<open>
  The sparse part of \<^verbatim>\<open>initSparse\<close> up to the end of the bucket loop, with
  \<^verbatim>\<open>halfBandSize = bandSize / 2\<close> and \<^verbatim>\<open>diagSize = min(xLen,yLen) * cellSize\<close>, a \<^verbatim>\<open>size_t\<close>.
\<close>

definition diagSize :: "DiagonalEnvelope \<Rightarrow> nat \<Rightarrow> int" where
  "diagSize env cellSize = asSize (int (min (xLen env) (yLen env)) * int cellSize)"

definition sparseSeeds ::
  "(nat \<Rightarrow> int list \<Rightarrow> bool) \<Rightarrow> (nat \<Rightarrow> int list \<Rightarrow> nat \<Rightarrow> nat) \<Rightarrow> int list \<Rightarrow> DiagonalEnvelope \<Rightarrow>
   KmerIndex \<Rightarrow> nat \<Rightarrow> int \<Rightarrow> nat \<Rightarrow> nat \<Rightarrow> error + SeedState" where
  "sparseSeeds kmerValid makeKmer xTok env yKmerIndex bandSize kmerThreshold cellSize maxSize =
     (case diagKmerCount kmerValid makeKmer xTok env yKmerIndex of
        Inl e \<Rightarrow> Inl e
      | Inr m \<Rightarrow>
          Inr (absorbBuckets env (bandSize div 2) kmerThreshold (diagSize env cellSize) maxSize
                 (bucketsDescending (countDistrib m)) (initialSeeds kmerThreshold)))"

text \<open>
  The sparse part of \<^verbatim>\<open>initSparse\<close>, lines 119 to 194: the seeds, then
  \<^verbatim>\<open>diagonals = vguard<int> (diags.begin(), diags.end()); initStorage();\<close>
\<close>

definition sparseEnvelope ::
  "(nat \<Rightarrow> int list \<Rightarrow> bool) \<Rightarrow> (nat \<Rightarrow> int list \<Rightarrow> nat \<Rightarrow> nat) \<Rightarrow> int list \<Rightarrow> DiagonalEnvelope \<Rightarrow>
   KmerIndex \<Rightarrow> nat \<Rightarrow> int \<Rightarrow> nat \<Rightarrow> nat \<Rightarrow> error + DiagonalEnvelope" where
  "sparseEnvelope kmerValid makeKmer xTok env yKmerIndex bandSize kmerThreshold cellSize maxSize =
     (case sparseSeeds kmerValid makeKmer xTok env yKmerIndex bandSize kmerThreshold cellSize maxSize of
        Inl e \<Rightarrow> Inl e
      | Inr st \<Rightarrow> initStorage (env\<lparr>diagonals := diags st\<rparr>))"

text \<open>
  \<^verbatim>\<open>initSparse\<close>. \<open>xTok\<close> is \<^verbatim>\<open>px->unvalidatedTokens (yKmerIndex.alphabet)\<close>, computed outside
  the sources.
  \<^verbatim>\<open>if (kmerThreshold >= 0) {
    const SeqIdx minLenForSparse = MIN_KMERS_FOR_SPARSE_ENVELOPE * (kmerLen + kmerThreshold);
    if (px->length() < minLenForSparse || py->length() < minLenForSparse) { initFull(); return; }
  } else {
    if (xLen * yLen * cellSize < maxSize) { initFull(); return; }
  }\<close>
  \<^verbatim>\<open>kmerLen + kmerThreshold\<close> and its double are \<^verbatim>\<open>unsigned int\<close>; \<^verbatim>\<open>xLen * yLen\<close> is a \<^verbatim>\<open>SeqIdx\<close>
  and its product with \<^verbatim>\<open>cellSize\<close> a \<^verbatim>\<open>size_t\<close>.
\<close>

definition minLenForSparse :: "KmerIndex \<Rightarrow> int \<Rightarrow> int" where
  "minLenForSparse yKmerIndex kmerThreshold =
     asUnsigned (2 * asUnsigned (int (kmerLen yKmerIndex) + kmerThreshold))"

definition fullSize :: "DiagonalEnvelope \<Rightarrow> nat \<Rightarrow> int" where
  "fullSize env cellSize = asSize (asUnsigned (int (xLen env) * int (yLen env)) * int cellSize)"

definition initSparse ::
  "(nat \<Rightarrow> int list \<Rightarrow> bool) \<Rightarrow> (nat \<Rightarrow> int list \<Rightarrow> nat \<Rightarrow> nat) \<Rightarrow> int list \<Rightarrow> DiagonalEnvelope \<Rightarrow>
   KmerIndex \<Rightarrow> nat \<Rightarrow> int \<Rightarrow> nat \<Rightarrow> nat \<Rightarrow> error + DiagonalEnvelope" where
  "initSparse kmerValid makeKmer xTok env yKmerIndex bandSize kmerThreshold cellSize maxSize =
     (if 0 \<le> kmerThreshold then
        (if int (length (seq (px env))) < minLenForSparse yKmerIndex kmerThreshold \<or>
            int (length (seq (py env))) < minLenForSparse yKmerIndex kmerThreshold
         then initFull env
         else sparseEnvelope kmerValid makeKmer xTok env yKmerIndex bandSize kmerThreshold
                cellSize maxSize)
      else
        (if fullSize env cellSize < int maxSize
         then initFull env
         else sparseEnvelope kmerValid makeKmer xTok env yKmerIndex bandSize kmerThreshold
                cellSize maxSize))"

subsection \<open>Notions used in the proofs about the envelope\<close>

text \<open>
  \<open>isSet\<close>: the list is a \<^verbatim>\<open>std::set\<close> (strictly increasing). \<open>storageCount\<close>: the iterator
  difference \<^verbatim>\<open>e - b\<close> of \<open>storageStep\<close>. \<open>sameGeometry\<close>: two envelopes that differ at most
  in the per-column storage tables.
\<close>

definition isSet :: "int list \<Rightarrow> bool" where
  "isSet s = (sorted s \<and> distinct s)"

definition storageCount :: "DiagonalEnvelope \<Rightarrow> nat \<Rightarrow> nat" where
  "storageCount env j = storageEndIntersecting env j - storageBeginIntersecting env j"

definition sameGeometry :: "DiagonalEnvelope \<Rightarrow> DiagonalEnvelope \<Rightarrow> bool" where
  "sameGeometry env env' =
     (px env' = px env \<and> py env' = py env \<and> xLen env' = xLen env \<and> yLen env' = yLen env \<and>
      diagonals env' = diagonals env \<and> storageDiagonals env' = storageDiagonals env \<and>
      storageIndex env' = storageIndex env)"

text \<open>
  The invariant of the bucket loop: both sets are sets, both hold diagonal 0, and every
  compute diagonal other than 0 has its two neighbours in the storage set.
\<close>

definition seedInv :: "SeedState \<Rightarrow> bool" where
  "seedInv st =
     (isSet (diags st) \<and> isSet (storageDiags st) \<and> 0 \<in> set (diags st) \<and>
      0 \<in> set (storageDiags st) \<and>
      (\<forall>d \<in> set (diags st). d = 0 \<or> {d - 1, d, d + 1} \<subseteq> set (storageDiags st)))"

text \<open>
  The bucket loop in memory-bound mode, told by its rounds: \<open>absorbedAfter .. k st\<close> is the
  state after the first \<open>k\<close> buckets have been absorbed into \<open>st\<close>, and \<open>testedSize .. i st\<close>
  the product \<^verbatim>\<open>moreStorageDiags.size() * diagSize\<close> that round \<open>i\<close> (counted from 1) compares
  with \<^verbatim>\<open>maxSize\<close>.
\<close>

definition absorbedAfter ::
  "DiagonalEnvelope \<Rightarrow> nat \<Rightarrow> (nat \<times> int list) list \<Rightarrow> nat \<Rightarrow> SeedState \<Rightarrow> SeedState" where
  "absorbedAfter env h buckets k st =
     fold (\<lambda>(cnt, seeds) s. (absorbBucket env h seeds s)\<lparr>threshold := int cnt, foundThreshold := True\<rparr>)
          (take k buckets) st"

definition testedSize ::
  "DiagonalEnvelope \<Rightarrow> nat \<Rightarrow> int \<Rightarrow> (nat \<times> int list) list \<Rightarrow> nat \<Rightarrow> SeedState \<Rightarrow> int" where
  "testedSize env h dsz buckets i st =
     asSize (int (length (storageDiags (absorbedAfter env h buckets i st))) * dsz)"

text \<open>
  An envelope for two sequences before initialisation, for the examples.
\<close>

definition exampleEnvelope :: "string \<Rightarrow> string \<Rightarrow> DiagonalEnvelope" where
  "exampleEnvelope x y =
     \<lparr>px = \<lparr>name = ''x'', seq = x\<rparr>, py = \<lparr>name = ''y'', seq = y\<rparr>,
      xLen = length x, yLen = length y,
      diagonals = [], storageDiagonals = [], storageIndex = [], storageOffset = [],
      storageSize = [], cumulStorageSize = [], totalStorageSize = 0\<rparr>"
section \<open>Profiles (profile.cpp)\<close>

subsection \<open>Failing computations\<close>

text \<open>
  Sequencing of computations that can fail, and the two loops built on it: a loop that
  collects a value per element and a loop that threads an accumulator. Both stop at the
  first failure, as the C++ loops do when an access throws.
\<close>

definition bindE :: "error + 'a \<Rightarrow> ('a \<Rightarrow> error + 'b) \<Rightarrow> error + 'b" where
  "bindE m f = (case m of Inl e \<Rightarrow> Inl e | Inr x \<Rightarrow> f x)"

fun mapE :: "('a \<Rightarrow> error + 'b) \<Rightarrow> 'a list \<Rightarrow> error + 'b list" where
  "mapE f [] = Inr []"
| "mapE f (x # xs) = bindE (f x) (\<lambda>y. bindE (mapE f xs) (\<lambda>ys. Inr (y # ys)))"

fun foldE :: "('b \<Rightarrow> 'a \<Rightarrow> error + 'b) \<Rightarrow> 'a list \<Rightarrow> 'b \<Rightarrow> error + 'b" where
  "foldE f [] a = Inr a"
| "foldE f (x # xs) a = bindE (f a x) (foldE f xs)"

text \<open>
  \<^verbatim>\<open>v[i]\<close> on a guarded vector (the build sets \<^verbatim>\<open>USE_VECTOR_GUARDS\<close>), and
  \<^verbatim>\<open>gsl_matrix_get (m, i, j)\<close>, which GSL range-checks. A matrix is the list of its rows.
\<close>

definition guardedAt :: "'a list \<Rightarrow> nat \<Rightarrow> error + 'a" where
  "guardedAt xs i = (if i < length xs then Inr (xs ! i) else Inl OutOfRange)"

type_synonym gsl_matrix = "real list list"

definition gsl_matrix_get :: "gsl_matrix \<Rightarrow> nat \<Rightarrow> nat \<Rightarrow> error + real" where
  "gsl_matrix_get m i j = bindE (guardedAt m i) (\<lambda>row. guardedAt row j)"

subsection \<open>Log-probabilities\<close>

text \<open>
  \<^verbatim>\<open>log (x)\<close> of a C++ \<^verbatim>\<open>double\<close> that is not negative, and \<^verbatim>\<open>a + b\<close> on log-probabilities:
  the logarithm of 0 is minus infinity, and minus infinity plus anything is minus infinity.
  (The logarithm of a negative number is NaN, which \<open>LogProb\<close> does not have; the entries
  of a substitution matrix are probabilities.)
\<close>

definition logOf :: "real \<Rightarrow> LogProb" where
  "logOf x = (if x = 0 then NegInf else LP (ln x))"

fun lpPlus :: "LogProb \<Rightarrow> LogProb \<Rightarrow> LogProb" where
  "lpPlus NegInf b = NegInf"
| "lpPlus a NegInf = NegInf"
| "lpPlus (LP a) (LP b) = LP (a + b)"

text \<open>
  Modelled from the spec: \<^verbatim>\<open>log_sum_exp (a, b)\<close> of logsumexp.h, the logarithm of
  \<open>exp a + exp b\<close> ("exp-sums respect \<open>log_sum_exp\<close> conventions"), taken exactly.
\<close>

fun log_sum_exp :: "LogProb \<Rightarrow> LogProb \<Rightarrow> LogProb" where
  "log_sum_exp NegInf b = b"
| "log_sum_exp a NegInf = a"
| "log_sum_exp (LP a) (LP b) = LP (ln (exp a + exp b))"

text \<open>The probability a log-probability stands for.\<close>

fun expOf :: "LogProb \<Rightarrow> real" where
  "expOf NegInf = 0"
| "expOf (LP a) = exp a"

subsection \<open>The data\<close>

text \<open>
  alignpath.h: \<^verbatim>\<open>typedef map<AlignRowIndex,AlignRowPath> AlignPath\<close> with
  \<^verbatim>\<open>AlignRowPath = vguard<bool>\<close>. \<^verbatim>\<open>SeqCoords\<close> maps a row to a sequence coordinate.
\<close>

type_synonym AlignRowIndex = nat
type_synonym AlignRowPath = "bool list"
type_synonym AlignPath = "AlignRowIndex \<rightharpoonup> AlignRowPath"
type_synonym SeqCoords = "AlignRowIndex \<rightharpoonup> nat"

text \<open>
  Modelled from the spec: \<^verbatim>\<open>alignPathResiduesInRow\<close> of alignpath.h ("residue count of a row
  is the number of true bits").
\<close>

definition alignPathResiduesInRow :: "AlignRowPath \<Rightarrow> nat" where
  "alignPathResiduesInRow row = length (filter (\<lambda>b. b) row)"

text \<open>
  The structs of profile.h, with the fields profile.cpp uses. Record fields share one
  name space, so a field name that repeats across the structs carries the initial of its
  struct: \<open>tpath\<close> is \<^verbatim>\<open>ProfileTransition::alignPath\<close>; \<open>sname\<close>, \<open>smeta\<close> and \<open>inTrans\<close> are
  \<^verbatim>\<open>ProfileState::name\<close>, \<^verbatim>\<open>meta\<close> and \<^verbatim>\<open>in\<close>; \<open>pname\<close>, \<open>pmeta\<close>, \<open>ptrans\<close> and \<open>pseq\<close> are
  \<^verbatim>\<open>Profile::name\<close>, \<^verbatim>\<open>meta\<close>, \<^verbatim>\<open>trans\<close> and \<^verbatim>\<open>seq\<close>. \<^verbatim>\<open>equivAbsorbState\<close> is a
  \<^verbatim>\<open>std::map\<close> that \<^verbatim>\<open>addReadyStates\<close> walks in key order: it is the list of its entries by
  increasing key.
\<close>

record ProfileTransition =
  src :: nat
  dest :: nat
  lpTrans :: LogProb
  tpath :: AlignPath

record ProfileState =
  sname :: string
  smeta :: "string \<rightharpoonup> string"
  inTrans :: "nat list"
  nullOut :: "nat list"
  absorbOut :: "nat list"
  lpAbsorb :: "LogProb list list"
  alignPath :: AlignPath
  seqCoords :: SeqCoords

record Profile =
  pname :: string
  pmeta :: "string \<rightharpoonup> string"
  components :: nat
  alphSize :: nat
  state :: "ProfileState list"
  ptrans :: "ProfileTransition list"
  equivAbsorbState :: "(nat \<times> nat) list"
  pseq :: "AlignRowIndex \<rightharpoonup> string"

text \<open>
  The constructors \<^verbatim>\<open>ProfileTransition()\<close>, \<^verbatim>\<open>ProfileState()\<close> and
  \<^verbatim>\<open>ProfileState (components, alphSize)\<close>. The indices of a default transition are not
  initialised in C++; every use below assigns them first.
\<close>

definition newTransition :: ProfileTransition where
  "newTransition = \<lparr>src = 0, dest = 0, lpTrans = NegInf, tpath = Map.empty\<rparr>"

definition newState :: ProfileState where
  "newState = \<lparr>sname = [], smeta = Map.empty, inTrans = [], nullOut = [], absorbOut = [],
                lpAbsorb = [], alignPath = Map.empty, seqCoords = Map.empty\<rparr>"

definition newAbsorbingState :: "nat \<Rightarrow> nat \<Rightarrow> ProfileState" where
  "newAbsorbingState cpts alph = newState\<lparr>lpAbsorb := replicate cpts (replicate alph NegInf)\<rparr>"

text \<open>
  Modelled from the spec: \<^verbatim>\<open>isNull\<close>, \<^verbatim>\<open>isReady\<close> and \<^verbatim>\<open>isWait\<close> of profile.h. A null
  state has no emission (the constructor below makes START and END "null states" by
  \<^verbatim>\<open>ProfileState()\<close>, whose emission table is empty). "A state with only null
  out-transitions is Wait", a Ready state is "absorbing-out-only", a state is neither
  exactly when "it has both null and absorbing outgoing transitions", and "each state must
  be Wait XOR Ready after normalisation": a state without absorbing out-transitions is
  Wait (END, which has no out-transition, is one), and a state whose out-transitions are
  all absorbing, with at least one of them, is Ready.
\<close>

definition isNull :: "ProfileState \<Rightarrow> bool" where
  "isNull s = (lpAbsorb s = [])"

definition isReady :: "ProfileState \<Rightarrow> bool" where
  "isReady s = (nullOut s = [] \<and> absorbOut s \<noteq> [])"

definition isWait :: "ProfileState \<Rightarrow> bool" where
  "isWait s = (absorbOut s = [])"

subsection \<open>The assertions\<close>

text \<open>
  \<^verbatim>\<open>ProfileState::assertSeqCoordsConsistent (srcCoords, destCoords, transPath, destPath)\<close>:
  \<^verbatim>\<open>SeqCoords seqCoords = srcCoords;
  for (const auto& rp: transPath) seqCoords[rp.first] += alignPathResiduesInRow (rp.second);
  for (const auto& rp: destPath)  seqCoords[rp.first] += alignPathResiduesInRow (rp.second);
  for (const auto& sc: destCoords) {
    Assert (seqCoords.count(sc.first), "Missing coordinate for sequence %d", sc.first);
    Assert (seqCoords.at(sc.first) == sc.second, ...); }\<close>
  \<open>addPath\<close> is one of the first two loops: \<^verbatim>\<open>seqCoords[r] += k\<close> enters a missing row
  with 0 before it adds.
\<close>

definition addPath :: "AlignPath \<Rightarrow> SeqCoords \<Rightarrow> SeqCoords" where
  "addPath path coords =
     (\<lambda>r. case path r of
             None \<Rightarrow> coords r
           | Some row \<Rightarrow> Some ((case coords r of None \<Rightarrow> 0 | Some c \<Rightarrow> c) + alignPathResiduesInRow row))"

definition coordsConsistent :: "SeqCoords \<Rightarrow> SeqCoords \<Rightarrow> AlignPath \<Rightarrow> AlignPath \<Rightarrow> bool" where
  "coordsConsistent srcCoords destCoords transPath destPath =
     (\<forall>r \<in> dom destCoords. addPath destPath (addPath transPath srcCoords) r = destCoords r)"

text \<open>
  \<^verbatim>\<open>Profile::assertSeqCoordsConsistent\<close>: the check for every transition, in order;
  \<^verbatim>\<open>state[t.src]\<close> and \<^verbatim>\<open>state[t.dest]\<close> are guarded. \<open>None\<close> when every assertion holds.
\<close>

fun assertTransitions :: "ProfileState list \<Rightarrow> ProfileTransition list \<Rightarrow> error option" where
  "assertTransitions sts [] = None"
| "assertTransitions sts (t # ts) =
     (if src t < length sts \<and> dest t < length sts then
        (if coordsConsistent (seqCoords (sts ! src t)) (seqCoords (sts ! dest t)) (tpath t)
              (alignPath (sts ! dest t))
         then assertTransitions sts ts
         else Some SeqCoordsInconsistent)
      else Some OutOfRange)"

definition assertSeqCoordsConsistent :: "Profile \<Rightarrow> error option" where
  "assertSeqCoordsConsistent P = assertTransitions (state P) (ptrans P)"

text \<open>
  \<^verbatim>\<open>Profile::assertAllStatesWaitOrReady\<close>:
  \<^verbatim>\<open>for (auto& s: state) Assert (s.isReady() || s.isWait(), ...)\<close>.
\<close>

definition assertAllStatesWaitOrReady :: "Profile \<Rightarrow> error option" where
  "assertAllStatesWaitOrReady P =
     (if list_all (\<lambda>s. isReady s \<or> isWait s) (state P) then None else Some NeitherWaitNorReady)"

subsection \<open>The leaf constructor\<close>

text \<open>\<^verbatim>\<open>to_string\<close> of a number: its decimal digits.\<close>

function to_string :: "nat \<Rightarrow> string" where
  "to_string n = (if n < 10 then [''0123456789'' ! n]
                  else to_string (n div 10) @ [''0123456789'' ! (n mod 10)])"
  by pat_completeness auto
termination
  by (relation "measure id") auto

text \<open>
  The body of \<^verbatim>\<open>for (auto& lpa: lpAbsorb)\<close> and the loop: a wildcard fills the row with 0,
  any other residue sets the entry of its token, a guarded write.
\<close>

definition observe :: "bool \<Rightarrow> nat \<Rightarrow> LogProb list \<Rightarrow> error + LogProb list" where
  "observe wild tok lpa =
     (if wild then Inr (replicate (length lpa) (LP 0))
      else if tok < length lpa then Inr (lpa[tok := LP 0])
      else Inl OutOfRange)"

text \<open>
  One round of \<^verbatim>\<open>for (size_t pos = 0; pos <= dsq.size(); ++pos)\<close>, on the pair of the state
  and transition vectors. \<open>sq\<close> is \<^verbatim>\<open>seq.seq\<close> and \<open>dsq\<close> its tokens. \<^verbatim>\<open>trans[pos]\<close>,
  \<^verbatim>\<open>state[pos]\<close> and \<^verbatim>\<open>state[pos+1]\<close> are guarded; \<^verbatim>\<open>seq.seq[pos]\<close> is a \<^verbatim>\<open>std::string\<close>
  access, which gives the null character at the end of the string.
\<close>

definition leafStep ::
  "(char \<Rightarrow> bool) \<Rightarrow> AlignRowIndex \<Rightarrow> string \<Rightarrow> nat list \<Rightarrow>
   ProfileState list \<times> ProfileTransition list \<Rightarrow> nat \<Rightarrow>
   error + ProfileState list \<times> ProfileTransition list" where
  "leafStep isWildcard rowIndex sq dsq st pos =
     (case st of (sts, ts) \<Rightarrow>
        if pos < length ts \<and> Suc pos < length sts then
          (let ts1 = ts[pos := (ts ! pos)\<lparr>src := pos, dest := Suc pos, lpTrans := LP 0\<rparr>];
               sts1 = (if pos = length dsq
                       then sts[pos := (sts ! pos)\<lparr>nullOut := nullOut (sts ! pos) @ [pos]\<rparr>]
                       else sts[pos := (sts ! pos)\<lparr>absorbOut := absorbOut (sts ! pos) @ [pos]\<rparr>]);
               sts2 = sts1[Suc pos := (sts1 ! Suc pos)\<lparr>inTrans := inTrans (sts1 ! Suc pos) @ [pos]\<rparr>]
           in if pos < length dsq then
                (let c = (if pos < length sq then sq ! pos else CHR 0x00);
                     s = sts2 ! Suc pos
                 in bindE (mapE (observe (isWildcard c) (dsq ! pos)) (lpAbsorb s))
                      (\<lambda>lpa. Inr (sts2[Suc pos := s\<lparr>sname := c # to_string (Suc pos),
                                                     alignPath := (alignPath s)(rowIndex \<mapsto>
                                                        (case alignPath s rowIndex of None \<Rightarrow> [] | Some p \<Rightarrow> p) @ [True]),
                                                     seqCoords := (seqCoords s)(rowIndex \<mapsto> Suc pos),
                                                     lpAbsorb := lpa\<rparr>],
                                     ts1)))
              else Inr (sts2, ts1))
        else Inl OutOfRange)"

text \<open>
  \<^verbatim>\<open>Profile::Profile (components, alphabet, seq, rowIndex)\<close>. \<open>isWildcard\<close> is
  \<^verbatim>\<open>Alignment::isWildcard\<close> and \<open>dsq\<close> the result of \<^verbatim>\<open>seq.tokens (alphabet)\<close>; both are
  defined outside the sources and are parameters. The fields the constructor does not
  mention are empty. The two assertions that end the constructor are part of it.
\<close>

definition leafProfile ::
  "(char \<Rightarrow> bool) \<Rightarrow> nat list \<Rightarrow> nat \<Rightarrow> string \<Rightarrow> FastSeq \<Rightarrow> AlignRowIndex \<Rightarrow> error + Profile" where
  "leafProfile isWildcard dsq cpts alph sq rowIndex =
     (let len = length (seq sq);
          sts0 = replicate (len + 2) (newAbsorbingState cpts (length alph));
          front = newState\<lparr>sname := ''START'', seqCoords := [rowIndex \<mapsto> 0]\<rparr>;
          back = newState\<lparr>sname := ''END'', seqCoords := [rowIndex \<mapsto> len]\<rparr>;
          sts1 = (sts0[0 := front])[Suc len := back];
          ts0 = replicate (len + 1) newTransition
      in bindE (foldE (leafStep isWildcard rowIndex (seq sq) dsq) [0..<length dsq + 1] (sts1, ts0))
           (\<lambda>(sts, ts).
              (let P = \<lparr>pname = name sq, pmeta = Map.empty, components = cpts,
                        alphSize = length alph, state = sts, ptrans = ts,
                        equivAbsorbState = [], pseq = [rowIndex \<mapsto> seq sq]\<rparr>
               in case assertSeqCoordsConsistent P of
                    Some e \<Rightarrow> Inl e
                  | None \<Rightarrow>
                      (case assertAllStatesWaitOrReady P of
                         Some e \<Rightarrow> Inl e
                       | None \<Rightarrow> Inr P))))"

subsection \<open>\<^verbatim>\<open>leftMultiply\<close>\<close>

text \<open>
  The two inner loops, for one state, component \<open>cpt\<close> and token \<open>c\<close>:
  \<^verbatim>\<open>LogProb lp = -infinity;
  for (AlphTok d = 0; d < alphSize; ++d)
    lp = log_sum_exp (lp, log (gsl_matrix_get(sub[cpt],c,d)) + state[i].lpAbsorb[cpt][d]);\<close>
\<close>

definition multiplyEntry ::
  "gsl_matrix list \<Rightarrow> nat \<Rightarrow> ProfileState \<Rightarrow> nat \<Rightarrow> nat \<Rightarrow> error + LogProb" where
  "multiplyEntry sub alph s cpt c =
     foldE (\<lambda>lp d.
              bindE (guardedAt sub cpt) (\<lambda>m.
              bindE (gsl_matrix_get m c d) (\<lambda>p.
              bindE (guardedAt (lpAbsorb s) cpt) (\<lambda>row.
              bindE (guardedAt row d) (\<lambda>x. Inr (log_sum_exp lp (lpPlus (logOf p) x)))))))
           [0..<alph] NegInf"

text \<open>
  \<^verbatim>\<open>prof.state[i].lpAbsorb[cpt][c] = lp\<close> for every \<open>c\<close>, then for every \<open>cpt\<close>: each
  entry is computed from the state as it was and written to the copy, a guarded write.
\<close>

definition writeEntry :: "LogProb list list \<Rightarrow> nat \<Rightarrow> nat \<Rightarrow> LogProb \<Rightarrow> error + LogProb list list" where
  "writeEntry table cpt c lp =
     (if cpt < length table \<and> c < length (table ! cpt)
      then Inr (table[cpt := (table ! cpt)[c := lp]])
      else Inl OutOfRange)"

definition multiplyState :: "gsl_matrix list \<Rightarrow> nat \<Rightarrow> nat \<Rightarrow> ProfileState \<Rightarrow> error + ProfileState" where
  "multiplyState sub cpts alph s =
     (if isNull s then Inr s
      else bindE
             (foldE (\<lambda>table cpt.
                       foldE (\<lambda>table' c.
                                bindE (multiplyEntry sub alph s cpt c) (writeEntry table' cpt c))
                             [0..<alph] table)
                    [0..<cpts] (lpAbsorb s))
             (\<lambda>table. Inr (s\<lparr>lpAbsorb := table\<rparr>)))"

text \<open>
  \<^verbatim>\<open>Profile::leftMultiply (sub)\<close>: a copy of the profile with the states treated one after
  the other.
\<close>

definition leftMultiply :: "gsl_matrix list \<Rightarrow> Profile \<Rightarrow> error + Profile" where
  "leftMultiply sub P =
     bindE (mapE (multiplyState sub (components P) (alphSize P)) (state P))
       (\<lambda>sts. Inr (P\<lparr>state := sts\<rparr>))"

subsection \<open>\<^verbatim>\<open>addReadyStates\<close>\<close>

text \<open>
  The local variables of the first loop: \<^verbatim>\<open>old2newStateIndex\<close>, \<^verbatim>\<open>profState\<close>,
  \<^verbatim>\<open>prof.trans\<close> and the counter \<^verbatim>\<open>n\<close>.
\<close>

record ReadyLoop =
  old2newStateIndex :: "nat list"
  profState :: "ProfileState list"
  profTrans :: "ProfileTransition list"
  nextIndex :: nat

text \<open>
  One round of \<^verbatim>\<open>for (ProfileStateIndex s = 0, n = 0; s < size(); ++s)\<close>:
  \<^verbatim>\<open>old2newStateIndex[s] = n++;
  if (!state[s].isReady() && !state[s].isWait()) {
    ProfileState readyState; ProfileTransition readyTrans;
    const ProfileStateIndex oldReadyStateIdx = profState.size();
    const ProfileStateIndex newReadyStateIdx = n++;
    const ProfileTransitionIndex readyTransIdx = prof.trans.size();
    profState[s].name += WaitStateSuffix;
    readyState.name = state[s].name + ReadyStateSuffix;
    readyState.meta = state[s].meta;
    readyState.seqCoords = state[s].seqCoords;
    swap (profState[s].absorbOut, readyState.absorbOut);
    readyTrans.src = s; readyTrans.dest = oldReadyStateIdx; readyTrans.lpTrans = 0;
    profState[s].nullOut.push_back (readyTransIdx);
    readyState.in.push_back (readyTransIdx);
    profState.push_back (readyState); prof.trans.push_back (readyTrans);
    old2newStateIndex.push_back (newReadyStateIdx); }\<close>
  with \<^verbatim>\<open>WaitStateSuffix\<close> \<open>;\<close> and \<^verbatim>\<open>ReadyStateSuffix\<close> \<open>.\<close>. Every index is below the size
  of its vector here (\<open>s\<close> is below \<^verbatim>\<open>size()\<close>, and the vectors only grow).
\<close>

definition readyStep :: "Profile \<Rightarrow> ReadyLoop \<Rightarrow> nat \<Rightarrow> ReadyLoop" where
  "readyStep P L s =
     (let o2n = (old2newStateIndex L)[s := nextIndex L];
          n1 = Suc (nextIndex L)
      in if \<not> isReady (state P ! s) \<and> \<not> isWait (state P ! s) then
           (let oldReadyStateIdx = length (profState L);
                readyTransIdx = length (profTrans L);
                w = profState L ! s;
                waitState = w\<lparr>sname := sname w @ '';'', absorbOut := [],
                              nullOut := nullOut w @ [readyTransIdx]\<rparr>;
                readyState = newState\<lparr>sname := sname (state P ! s) @ ''.'',
                                      smeta := smeta (state P ! s),
                                      seqCoords := seqCoords (state P ! s),
                                      absorbOut := absorbOut w,
                                      inTrans := [readyTransIdx]\<rparr>;
                readyTrans = newTransition\<lparr>src := s, dest := oldReadyStateIdx, lpTrans := LP 0\<rparr>
            in \<lparr>old2newStateIndex = o2n @ [n1],
                profState = (profState L)[s := waitState] @ [readyState],
                profTrans = profTrans L @ [readyTrans],
                nextIndex = Suc n1\<rparr>)
         else L\<lparr>old2newStateIndex := o2n, nextIndex := n1\<rparr>)"

definition readyLoop :: "Profile \<Rightarrow> ReadyLoop" where
  "readyLoop P =
     foldl (readyStep P)
       \<lparr>old2newStateIndex = replicate (length (state P)) 0, profState = state P,
        profTrans = ptrans P, nextIndex = 0\<rparr>
       [0..<length (state P)]"

text \<open>
  \<^verbatim>\<open>prof.state = vguard<ProfileState> (profState.size());
  for (s = 0; s < profState.size(); ++s) swap (profState[s], prof.state[old2newStateIndex[s]]);\<close>
\<close>

definition placeStates :: "nat list \<Rightarrow> ProfileState list \<Rightarrow> error + ProfileState list" where
  "placeStates o2n ps =
     foldE (\<lambda>acc s. bindE (guardedAt o2n s) (\<lambda>k.
                      if k < length acc then Inr (acc[k := ps ! s]) else Inl OutOfRange))
           [0..<length ps] (replicate (length ps) newState)"

text \<open>
  \<^verbatim>\<open>for (auto& t: prof.trans) { t.src = old2newStateIndex[t.src]; t.dest = old2newStateIndex[t.dest]; }\<close>
\<close>

definition renumberTransition :: "nat list \<Rightarrow> ProfileTransition \<Rightarrow> error + ProfileTransition" where
  "renumberTransition o2n t =
     bindE (guardedAt o2n (src t)) (\<lambda>s. bindE (guardedAt o2n (dest t)) (\<lambda>d. Inr (t\<lparr>src := s, dest := d\<rparr>)))"

text \<open>
  \<^verbatim>\<open>for (const auto& ss: equivAbsorbState)
    prof.equivAbsorbState[old2newStateIndex[ss.first]] = old2newStateIndex[ss.second];\<close>
  \<open>mapAssign\<close> is \<^verbatim>\<open>m[k] = v\<close> on the entries of a \<^verbatim>\<open>std::map\<close> by increasing key.
\<close>

fun mapAssign :: "nat \<Rightarrow> nat \<Rightarrow> (nat \<times> nat) list \<Rightarrow> (nat \<times> nat) list" where
  "mapAssign k v [] = [(k, v)]"
| "mapAssign k v ((k', v') # m) =
     (if k < k' then (k, v) # (k', v') # m
      else if k = k' then (k, v) # m
      else (k', v') # mapAssign k v m)"

definition renumberEquiv :: "nat list \<Rightarrow> (nat \<times> nat) list \<Rightarrow> error + (nat \<times> nat) list" where
  "renumberEquiv o2n entries =
     foldE (\<lambda>m (k, v). bindE (guardedAt o2n k) (\<lambda>k'. bindE (guardedAt o2n v) (\<lambda>v'. Inr (mapAssign k' v' m))))
           entries []"

text \<open>\<^verbatim>\<open>Profile::addReadyStates\<close>.\<close>

definition addReadyStates :: "Profile \<Rightarrow> error + Profile" where
  "addReadyStates P =
     (let L = readyLoop P
      in bindE (placeStates (old2newStateIndex L) (profState L)) (\<lambda>sts.
         bindE (mapE (renumberTransition (old2newStateIndex L)) (profTrans L)) (\<lambda>ts.
         bindE (renumberEquiv (old2newStateIndex L) (equivAbsorbState P)) (\<lambda>eq.
         Inr \<lparr>pname = pname P, pmeta = pmeta P, components = components P,
              alphSize = alphSize P, state = sts, ptrans = ts,
              equivAbsorbState = eq, pseq = pseq P\<rparr>))))"

subsection \<open>Notions used in the proofs about profiles\<close>

text \<open>
  The leaf constructor in closed form: \<open>leafStateAt .. k i\<close> is state \<open>i\<close> and
  \<open>leafTransAt k p\<close> transition \<open>p\<close> after \<open>k\<close> rounds of the loop, \<open>leafEmission\<close> the emission
  row of a position, and \<open>leafResult\<close> the profile the constructor returns.
\<close>

definition leafEmission :: "(char \<Rightarrow> bool) \<Rightarrow> nat \<Rightarrow> string \<Rightarrow> nat list \<Rightarrow> nat \<Rightarrow> LogProb list" where
  "leafEmission isWildcard K sq dsq p =
     (if isWildcard (sq ! p) then replicate K (LP 0) else (replicate K NegInf)[dsq ! p := LP 0])"

definition leafStateAt ::
  "(char \<Rightarrow> bool) \<Rightarrow> AlignRowIndex \<Rightarrow> string \<Rightarrow> nat list \<Rightarrow> nat \<Rightarrow> nat \<Rightarrow> nat \<Rightarrow> nat \<Rightarrow> ProfileState" where
  "leafStateAt isWildcard rowIndex sq dsq cpts K k i =
     \<lparr>sname = (if i = 0 then ''START'' else if i = Suc (length sq) then ''END''
               else if i \<le> k then (sq ! (i - 1)) # to_string i else []),
      smeta = Map.empty,
      inTrans = (if 0 < i \<and> i \<le> k then [i - 1] else []),
      nullOut = (if i = length sq \<and> i < k then [i] else []),
      absorbOut = (if i < length sq \<and> i < k then [i] else []),
      lpAbsorb = (if i = 0 \<or> i = Suc (length sq) then []
                  else if i \<le> k then replicate cpts (leafEmission isWildcard K sq dsq (i - 1))
                  else replicate cpts (replicate K NegInf)),
      alignPath = (if 0 < i \<and> i \<le> length sq \<and> i \<le> k then [rowIndex \<mapsto> [True]] else Map.empty),
      seqCoords = (if i = 0 then [rowIndex \<mapsto> 0] else if i = Suc (length sq) then [rowIndex \<mapsto> length sq]
                   else if i \<le> k then [rowIndex \<mapsto> i] else Map.empty)\<rparr>"

definition leafTransAt :: "nat \<Rightarrow> nat \<Rightarrow> ProfileTransition" where
  "leafTransAt k p =
     (if p < k then \<lparr>src = p, dest = Suc p, lpTrans = LP 0, tpath = Map.empty\<rparr> else newTransition)"

definition leafResult ::
  "(char \<Rightarrow> bool) \<Rightarrow> nat list \<Rightarrow> nat \<Rightarrow> string \<Rightarrow> FastSeq \<Rightarrow> AlignRowIndex \<Rightarrow> Profile" where
  "leafResult isWildcard dsq cpts alph sq rowIndex =
     \<lparr>pname = name sq, pmeta = Map.empty, components = cpts, alphSize = length alph,
      state = map (leafStateAt isWildcard rowIndex (seq sq) dsq cpts (length alph) (length (seq sq) + 1))
                [0..<length (seq sq) + 2],
      ptrans = map (leafTransAt (length (seq sq) + 1)) [0..<length (seq sq) + 1],
      equivAbsorbState = [], pseq = [rowIndex \<mapsto> seq sq]\<rparr>"

text \<open>
  For \<open>leftMultiply\<close>: \<open>substitutionFits\<close> says that there is a matrix per component with
  at least \<open>K\<close> rows and columns and no negative entry among the first \<open>K\<close> by \<open>K\<close>;
  \<open>emissionsFit\<close> that an absorbing state has at least \<open>M\<close> emission rows of at least \<open>K\<close>
  entries; \<open>multipliedEmission\<close> is the entry the claim gives,
  \<open>log (\<Sum>d. sub[cpt](c,d) * exp (lpAbsorb[cpt][d]))\<close>.
\<close>

definition substitutionFits :: "gsl_matrix list \<Rightarrow> nat \<Rightarrow> nat \<Rightarrow> bool" where
  "substitutionFits sub M K =
     (M \<le> length sub \<and>
      (\<forall>cpt < M. K \<le> length (sub ! cpt) \<and>
         (\<forall>c < K. K \<le> length (sub ! cpt ! c) \<and> (\<forall>d < K. 0 \<le> sub ! cpt ! c ! d))))"

definition emissionsFit :: "nat \<Rightarrow> nat \<Rightarrow> ProfileState \<Rightarrow> bool" where
  "emissionsFit M K s =
     (isNull s \<or> (M \<le> length (lpAbsorb s) \<and> (\<forall>cpt < M. K \<le> length (lpAbsorb s ! cpt))))"

definition multipliedEmission :: "gsl_matrix list \<Rightarrow> nat \<Rightarrow> ProfileState \<Rightarrow> nat \<Rightarrow> nat \<Rightarrow> LogProb" where
  "multipliedEmission sub K s cpt c =
     logOf (\<Sum>d < K. sub ! cpt ! c ! d * expOf (lpAbsorb s ! cpt ! d))"

text \<open>
  For \<open>addReadyStates\<close>: \<open>neither\<close> is the test of its first loop, \<open>readyAfter P k\<close> the
  loop's variables after \<open>k\<close> rounds, and \<open>waitStateOf\<close>, \<open>readyStateOf\<close>, \<open>readyTransOf\<close>
  the Wait state, the Ready state and the null transition the loop makes of a state that is
  neither Wait nor Ready.
\<close>

definition neither :: "ProfileState \<Rightarrow> bool" where
  "neither s = (\<not> isReady s \<and> \<not> isWait s)"

definition readyAfter :: "Profile \<Rightarrow> nat \<Rightarrow> ReadyLoop" where
  "readyAfter P k =
     foldl (readyStep P)
       \<lparr>old2newStateIndex = replicate (length (state P)) 0, profState = state P,
        profTrans = ptrans P, nextIndex = 0\<rparr>
       [0..<k]"

definition waitStateOf :: "ProfileState \<Rightarrow> nat \<Rightarrow> ProfileState" where
  "waitStateOf s ti = s\<lparr>sname := sname s @ '';'', absorbOut := [], nullOut := nullOut s @ [ti]\<rparr>"

definition readyStateOf :: "ProfileState \<Rightarrow> nat \<Rightarrow> ProfileState" where
  "readyStateOf s ti =
     newState\<lparr>sname := sname s @ ''.'', smeta := smeta s, seqCoords := seqCoords s,
              absorbOut := absorbOut s, inTrans := [ti]\<rparr>"

definition readyTransOf :: "nat \<Rightarrow> nat \<Rightarrow> ProfileTransition" where
  "readyTransOf s j = \<lparr>src = s, dest = j, lpTrans = LP 0, tpath = Map.empty\<rparr>"

text \<open>The shape of the loop's variables after \<open>k\<close> rounds.\<close>

definition readyShape :: "Profile \<Rightarrow> nat \<Rightarrow> ReadyLoop \<Rightarrow> bool" where
  "readyShape P k L =
     (length (old2newStateIndex L) = length (profState L) \<and>
      length (state P) \<le> length (profState L) \<and>
      nextIndex L = k + (length (profState L) - length (state P)) \<and>
      length (profTrans L) = length (ptrans P) + (length (profState L) - length (state P)) \<and>
      take (length (ptrans P)) (profTrans L) = ptrans P \<and>
      (\<forall>i. k \<le> i \<and> i < length (state P) \<longrightarrow> profState L ! i = state P ! i))"

text \<open>
  The indices handed out so far: those of the states already visited and of the Ready
  states appended. They lie below the counter and no two are equal.
\<close>

definition assigned :: "Profile \<Rightarrow> nat \<Rightarrow> ReadyLoop \<Rightarrow> nat \<Rightarrow> bool" where
  "assigned P k L i = (i < length (profState L) \<and> (i < k \<or> length (state P) \<le> i))"

definition readyIndices :: "Profile \<Rightarrow> nat \<Rightarrow> ReadyLoop \<Rightarrow> bool" where
  "readyIndices P k L =
     ((\<forall>i. assigned P k L i \<longrightarrow> old2newStateIndex L ! i < nextIndex L) \<and>
      (\<forall>i j. assigned P k L i \<and> assigned P k L j \<and>
             old2newStateIndex L ! i = old2newStateIndex L ! j \<longrightarrow> i = j))"

text \<open>
  What the loop has made of a state \<open>s\<close> that is neither Wait nor Ready: the Wait state in
  its place, the Ready state \<open>j\<close> appended for it, and the null transition between them.
\<close>

definition splitAt :: "Profile \<Rightarrow> ReadyLoop \<Rightarrow> nat \<Rightarrow> nat \<Rightarrow> bool" where
  "splitAt P L s j =
     (neither (state P ! s) \<and> length (state P) \<le> j \<and> j < length (profState L) \<and>
      old2newStateIndex L ! j = Suc (old2newStateIndex L ! s) \<and>
      profState L ! s =
        waitStateOf (state P ! s) (length (ptrans P) + (j - length (state P))) \<and>
      profState L ! j =
        readyStateOf (state P ! s) (length (ptrans P) + (j - length (state P))) \<and>
      profTrans L ! (length (ptrans P) + (j - length (state P))) = readyTransOf s j)"

definition readyContent :: "Profile \<Rightarrow> nat \<Rightarrow> ReadyLoop \<Rightarrow> bool" where
  "readyContent P k L =
     ((\<forall>s < k. \<not> neither (state P ! s) \<longrightarrow> profState L ! s = state P ! s) \<and>
      (\<forall>s < k. neither (state P ! s) \<longrightarrow> (\<exists>j. splitAt P L s j)) \<and>
      (\<forall>j. length (state P) \<le> j \<and> j < length (profState L) \<longrightarrow> (\<exists>s < k. splitAt P L s j)))"

text \<open>The entries of a \<^verbatim>\<open>std::map\<close>: keys strictly increasing.\<close>

definition keysAscending :: "(nat \<times> nat) list \<Rightarrow> bool" where
  "keysAscending m = sorted_wrt (<) (map fst m)"

text \<open>
  A profile with a state that is neither Wait nor Ready: from \<open>A\<close> a null transition leads
  to \<open>END\<close> and an absorbing one to \<open>B\<close>.
\<close>

definition exampleProfile :: Profile where
  "exampleProfile =
     \<lparr>pname = ''example'', pmeta = Map.empty, components = 1, alphSize = 1,
      state = [newState\<lparr>sname := ''START'', absorbOut := [0], seqCoords := [0 \<mapsto> 0]\<rparr>,
               newState\<lparr>sname := ''A'', inTrans := [0], nullOut := [1], absorbOut := [2],
                        lpAbsorb := [[LP 0]], alignPath := [0 \<mapsto> [True]], seqCoords := [0 \<mapsto> 1]\<rparr>,
               newState\<lparr>sname := ''B'', inTrans := [2], nullOut := [3],
                        lpAbsorb := [[LP 0]], alignPath := [0 \<mapsto> [True]], seqCoords := [0 \<mapsto> 2]\<rparr>,
               newState\<lparr>sname := ''END'', inTrans := [1, 3], seqCoords := [0 \<mapsto> 2]\<rparr>],
      ptrans = [\<lparr>src = 0, dest = 1, lpTrans = LP 0, tpath = Map.empty\<rparr>,
                \<lparr>src = 1, dest = 3, lpTrans = LP 0, tpath = [0 \<mapsto> [True]]\<rparr>,
                \<lparr>src = 1, dest = 2, lpTrans = LP 0, tpath = Map.empty\<rparr>,
                \<lparr>src = 2, dest = 3, lpTrans = LP 0, tpath = Map.empty\<rparr>],
      equivAbsorbState = [], pseq = [0 \<mapsto> ''AC'']\<rparr>"

text \<open>
  The equation of sequence-coordinate consistency for one transition, on the arguments of
  \<^verbatim>\<open>ProfileState::assertSeqCoordsConsistent\<close>: for every row \<open>r\<close> of the source coordinates,
  the transition path or the destination path,
  \<open>destCoords[r] = srcCoords[r] + residues (transPath[r]) + residues (destPath[r])\<close>, a row
  missing from the source coordinates or from a path counting 0. \<open>seqCoordsConsistent\<close> is
  the equation for every transition of a profile, between states of the profile.
\<close>

definition coordOf :: "SeqCoords \<Rightarrow> AlignRowIndex \<Rightarrow> nat" where
  "coordOf coords r = (case coords r of None \<Rightarrow> 0 | Some c \<Rightarrow> c)"

definition residuesOf :: "AlignPath \<Rightarrow> AlignRowIndex \<Rightarrow> nat" where
  "residuesOf path r = (case path r of None \<Rightarrow> 0 | Some row \<Rightarrow> alignPathResiduesInRow row)"

definition coordsAgree :: "SeqCoords \<Rightarrow> SeqCoords \<Rightarrow> AlignPath \<Rightarrow> AlignPath \<Rightarrow> bool" where
  "coordsAgree srcCoords destCoords transPath destPath =
     (\<forall>r \<in> dom srcCoords \<union> dom transPath \<union> dom destPath.
        destCoords r = Some (coordOf srcCoords r + residuesOf transPath r + residuesOf destPath r))"

definition seqCoordsConsistent :: "Profile \<Rightarrow> bool" where
  "seqCoordsConsistent P =
     (\<forall>t \<in> set (ptrans P).
        src t < length (state P) \<and> dest t < length (state P) \<and>
        coordsAgree (seqCoords (state P ! src t)) (seqCoords (state P ! dest t)) (tpath t)
          (alignPath (state P ! dest t)))"

section \<open>Properties of dataset preparation\<close>

lemma seqIndexLoop_distinct:
  "distinct (map name ss) \<Longrightarrow> set (map name ss) \<inter> dom idx = {} \<Longrightarrow>
   \<exists>idx'. seqIndexLoop ss n idx = Inr idx' \<and>
     dom idx' = dom idx \<union> set (map name ss) \<and>
     (\<forall>i < length ss. idx' (name (ss ! i)) = Some (n + i)) \<and>
     (\<forall>k. k \<notin> set (map name ss) \<longrightarrow> idx' k = idx k)"
proof (induction ss arbitrary: n idx)
  case Nil
  then show ?case by simp
next
  case (Cons s ss)
  from Cons.prems have fresh: "idx (name s) = None" by auto
  from Cons.prems have d: "distinct (map name ss)"
    and disj: "set (map name ss) \<inter> dom (idx(name s \<mapsto> n)) = {}" by auto
  from Cons.IH [OF d disj, of "Suc n"] obtain idx' where
    r: "seqIndexLoop ss (Suc n) (idx(name s \<mapsto> n)) = Inr idx'"
    and dm: "dom idx' = dom (idx(name s \<mapsto> n)) \<union> set (map name ss)"
    and ix: "\<forall>i < length ss. idx' (name (ss ! i)) = Some (Suc n + i)"
    and keep: "\<forall>k. k \<notin> set (map name ss) \<longrightarrow> idx' k = (idx(name s \<mapsto> n)) k"
    by blast
  from Cons.prems have notin: "name s \<notin> set (map name ss)" by simp
  have here: "idx' (name s) = Some n" using keep notin by simp
  have all: "\<forall>i < length (s # ss). idx' (name ((s # ss) ! i)) = Some (n + i)"
  proof (intro allI impI)
    fix i assume "i < length (s # ss)"
    then show "idx' (name ((s # ss) ! i)) = Some (n + i)"
      using here ix by (cases i) auto
  qed
  have rest: "\<forall>k. k \<notin> set (map name (s # ss)) \<longrightarrow> idx' k = idx k"
    using keep by auto
  show ?case
    using fresh r dm all rest by auto
qed

lemma seqIndexLoop_duplicate:
  "\<not> distinct (map name ss) \<or> set (map name ss) \<inter> dom idx \<noteq> {} \<Longrightarrow>
   \<exists>nm. seqIndexLoop ss n idx = Inl (DuplicateSequenceName nm) \<and> nm \<in> set (map name ss) \<and>
     (nm \<in> dom idx \<or> 1 < count_list (map name ss) nm)"
proof (induction ss arbitrary: n idx)
  case Nil
  then show ?case by simp
next
  case (Cons s ss)
  show ?case
  proof (cases "idx (name s) = None")
    case False
    then show ?thesis by auto
  next
    case True
    with Cons.prems have
      "\<not> distinct (map name ss) \<or> set (map name ss) \<inter> dom (idx(name s \<mapsto> n)) \<noteq> {}"
      by auto
    from Cons.IH [OF this, of "Suc n"] obtain nm where
      r: "seqIndexLoop ss (Suc n) (idx(name s \<mapsto> n)) = Inl (DuplicateSequenceName nm)"
      and mem: "nm \<in> set (map name ss)"
      and why: "nm \<in> dom (idx(name s \<mapsto> n)) \<or> 1 < count_list (map name ss) nm"
      by blast
    have "nm \<in> dom idx \<or> 1 < count_list (map name (s # ss)) nm"
    proof (cases "nm = name s")
      case True
      from mem have "count_list (map name ss) nm \<noteq> 0"
        by (simp only: count_list_0_iff) simp
      then have "0 < count_list (map name ss) nm" by simp
      with True show ?thesis by simp
    next
      case False
      with why show ?thesis by auto
    qed
    with True r mem show ?thesis by auto
  qed
qed

text \<open>
  Claim C10. Dataset preparation rejects duplicate sequence names. Starting from an empty
  index (a new dataset, or one after \<^verbatim>\<open>clearPrep\<close>) and with valid branch lengths: if two
  sequences share a name, \<^verbatim>\<open>prepareRecon\<close> fails with the duplicate-name error, naming a
  name that occurs more than once; otherwise it returns the dataset with an index whose
  keys are exactly the sequence names, which is injective and sends the name of sequence
  \<open>n\<close> to \<open>n\<close>.
\<close>

theorem C10_prepareRecon_duplicate_names:
  assumes "seqIndex d = Map.empty"
  shows "(\<not> distinct (map name (seqs d)) \<longrightarrow>
            (\<exists>nm. prepareRecon None d = Inl (DuplicateSequenceName nm) \<and>
                  1 < count_list (map name (seqs d)) nm)) \<and>
         (distinct (map name (seqs d)) \<longrightarrow>
            (\<exists>d'. prepareRecon None d = Inr d' \<and> seqs d' = seqs d \<and>
                  dom (seqIndex d') = set (map name (seqs d)) \<and>
                  inj_on (seqIndex d') (dom (seqIndex d')) \<and>
                  (\<forall>n < length (seqs d). seqIndex d' (name (seqs d ! n)) = Some n)))"
proof (intro conjI impI)
  assume nd: "\<not> distinct (map name (seqs d))"
  then have "\<not> distinct (map name (seqs d)) \<or> set (map name (seqs d)) \<inter> dom (seqIndex d) \<noteq> {}"
    by simp
  from seqIndexLoop_duplicate [OF this, of 0] assms
  show "\<exists>nm. prepareRecon None d = Inl (DuplicateSequenceName nm) \<and>
             1 < count_list (map name (seqs d)) nm"
    by (auto simp: prepareRecon_def)
next
  assume dist: "distinct (map name (seqs d))"
  from assms have "set (map name (seqs d)) \<inter> dom (seqIndex d) = {}" by simp
  from seqIndexLoop_distinct [OF dist this, of 0] obtain idx' where
    r: "seqIndexLoop (seqs d) 0 (seqIndex d) = Inr idx'"
    and dm: "dom idx' = dom (seqIndex d) \<union> set (map name (seqs d))"
    and ix: "\<forall>i < length (seqs d). idx' (name (seqs d ! i)) = Some (0 + i)"
    by blast
  have inj: "inj_on idx' (dom idx')"
  proof (rule inj_onI)
    fix a b assume a: "a \<in> dom idx'" and b: "b \<in> dom idx'" and eq: "idx' a = idx' b"
    from a dm assms obtain i where i: "i < length (seqs d)" "a = name (seqs d ! i)"
      by (auto simp: in_set_conv_nth)
    from b dm assms obtain j where j: "j < length (seqs d)" "b = name (seqs d ! j)"
      by (auto simp: in_set_conv_nth)
    from i j ix eq have "i = j" by simp
    with i j show "a = b" by simp
  qed
  show "\<exists>d'. prepareRecon None d = Inr d' \<and> seqs d' = seqs d \<and>
             dom (seqIndex d') = set (map name (seqs d)) \<and>
             inj_on (seqIndex d') (dom (seqIndex d')) \<and>
             (\<forall>n < length (seqs d). seqIndex d' (name (seqs d ! n)) = Some n)"
    using r dm ix inj assms by (simp add: prepareRecon_def)
qed

text \<open>The theorem at a dataset with a repeated name and at one without.\<close>

theorem C10_prepareRecon_duplicate_names_witness:
  "(\<exists>nm. prepareRecon None
      \<lparr>seqs = [\<lparr>name = ''human'', seq = ''ACGT''\<rparr>, \<lparr>name = ''chimp'', seq = ''ACG''\<rparr>,
               \<lparr>name = ''human'', seq = ''AGT''\<rparr>],
       seqIndex = Map.empty\<rparr> = Inl (DuplicateSequenceName nm)) \<and>
   (\<exists>d'. prepareRecon None
      \<lparr>seqs = [\<lparr>name = ''human'', seq = ''ACGT''\<rparr>, \<lparr>name = ''chimp'', seq = ''ACG''\<rparr>],
       seqIndex = Map.empty\<rparr> = Inr d' \<and> seqIndex d' ''chimp'' = Some 1)"
proof -
  let ?dup = "\<lparr>seqs = [\<lparr>name = ''human'', seq = ''ACGT''\<rparr>, \<lparr>name = ''chimp'', seq = ''ACG''\<rparr>,
               \<lparr>name = ''human'', seq = ''AGT''\<rparr>], seqIndex = Map.empty\<rparr>"
  let ?ok = "\<lparr>seqs = [\<lparr>name = ''human'', seq = ''ACGT''\<rparr>, \<lparr>name = ''chimp'', seq = ''ACG''\<rparr>],
               seqIndex = Map.empty\<rparr>"
  have e1: "seqIndex ?dup = Map.empty" by simp
  have e2: "seqIndex ?ok = Map.empty" by simp
  have nd: "\<not> distinct (map name (seqs ?dup))" by simp
  have dd: "distinct (map name (seqs ?ok))" by simp
  from C10_prepareRecon_duplicate_names [OF e1] nd
  have a: "\<exists>nm. prepareRecon None ?dup = Inl (DuplicateSequenceName nm)" by blast
  from C10_prepareRecon_duplicate_names [OF e2] dd
  obtain d' where "prepareRecon None ?ok = Inr d'"
    and "\<forall>n < length (seqs ?ok). seqIndex d' (name (seqs ?ok ! n)) = Some n" by blast
  then have b: "\<exists>d'. prepareRecon None ?ok = Inr d' \<and> seqIndex d' ''chimp'' = Some 1"
    by (intro exI [of _ d']) force
  from a b show ?thesis by blast
qed

section \<open>Properties of the Forward retry loop\<close>

lemma forwardRetry_bands:
  "maxDist \<noteq> 0 \<Longrightarrow>
   forwardRetry lpEnd guideEmpty cols maxDist = Some (firstFinite lpEnd guideEmpty (bandsTried cols maxDist))"
proof (induction cols maxDist rule: bandsTried.induct)
  case (1 cols maxDist)
  show ?case
  proof (cases "maxDist < 0")
    case True
    then show ?thesis
      by (subst forwardRetry.simps) simp
  next
    case False
    with "1.prems" have pos: "0 < maxDist" by simp
    show ?thesis
    proof (cases "maxDist * 2 > int cols")
      case True
      have "forwardRetry lpEnd guideEmpty cols (- 1) = Some (firstFinite lpEnd guideEmpty [- 1])"
        by (subst forwardRetry.simps) simp
      with True pos show ?thesis
        by (subst forwardRetry.simps) simp
    next
      case False
      from pos have nz: "maxDist * 2 \<noteq> 0" by simp
      from pos False have ih: "forwardRetry lpEnd guideEmpty cols (maxDist * 2) =
          Some (firstFinite lpEnd guideEmpty (bandsTried cols (maxDist * 2)))"
        using "1.IH" nz by simp
      from pos False ih show ?thesis
        by (subst forwardRetry.simps, subst bandsTried.simps) simp
    qed
  qed
qed

lemma forwardRetry_exit:
  "forwardRetry lpEnd guideEmpty cols maxDist = Some (Inr (b, lp)) \<Longrightarrow>
   lp = lpEnd (guideEnvelope guideEmpty b) \<and> lp \<noteq> NegInf"
proof -
  have "\<forall>b lp. r = Inr (b, lp) \<longrightarrow> lp = l (guideEnvelope g b) \<and> lp \<noteq> NegInf"
    if "forwardRetry l g c m = Some r" for l g c m r
    using that
    by (rule forwardRetry.raw_induct [rotated 1,
          where P = "\<lambda>l g c m r. \<forall>b lp. r = Inr (b, lp) \<longrightarrow> lp = l (guideEnvelope g b) \<and> lp \<noteq> NegInf"])
       (auto split: if_splits)
  then show "forwardRetry lpEnd guideEmpty cols maxDist = Some (Inr (b, lp)) \<Longrightarrow>
   lp = lpEnd (guideEnvelope guideEmpty b) \<and> lp \<noteq> NegInf" by blast
qed

text \<open>
  The retry loop around the Forward matrix, round by round. With a finite \<open>lpEnd\<close> the loop
  exits at once; with \<open>lpEnd\<close> minus infinity and a band \<open>maxDist \<ge> 0\<close> it retries with
  the doubled band, or with \<open>maxDist = -1\<close> (no guide constraint) when the doubled band
  exceeds the guide's column count; with \<open>lpEnd\<close> minus infinity and \<open>maxDist < 0\<close> it
  aborts with the zero-likelihood error. A normal exit always carries a finite \<open>lpEnd\<close>
  of the band it reports. From a non-zero band the loop returns: its result is the first
  band of \<open>bandsTried\<close> with a finite \<open>lpEnd\<close>, or the abort when there is none.
\<close>

lemma forwardRetry_rounds:
  "(lpEnd (guideEnvelope guideEmpty maxDist) \<noteq> NegInf \<longrightarrow>
      forwardRetry lpEnd guideEmpty cols maxDist =
        Some (Inr (maxDist, lpEnd (guideEnvelope guideEmpty maxDist)))) \<and>
   (lpEnd (guideEnvelope guideEmpty maxDist) = NegInf \<and> 0 \<le> maxDist \<and> maxDist * 2 \<le> int cols \<longrightarrow>
      forwardRetry lpEnd guideEmpty cols maxDist = forwardRetry lpEnd guideEmpty cols (maxDist * 2)) \<and>
   (lpEnd (guideEnvelope guideEmpty maxDist) = NegInf \<and> 0 \<le> maxDist \<and> int cols < maxDist * 2 \<longrightarrow>
      forwardRetry lpEnd guideEmpty cols maxDist = forwardRetry lpEnd guideEmpty cols (- 1)) \<and>
   (lpEnd (guideEnvelope guideEmpty maxDist) = NegInf \<and> maxDist < 0 \<longrightarrow>
      forwardRetry lpEnd guideEmpty cols maxDist = Some (Inl ZeroLikelihood)) \<and>
   (\<forall>b lp. forwardRetry lpEnd guideEmpty cols maxDist = Some (Inr (b, lp)) \<longrightarrow>
      lp = lpEnd (guideEnvelope guideEmpty b) \<and> lp \<noteq> NegInf) \<and>
   (maxDist \<noteq> 0 \<longrightarrow>
      forwardRetry lpEnd guideEmpty cols maxDist =
        Some (firstFinite lpEnd guideEmpty (bandsTried cols maxDist)))"
proof (intro conjI)
  show "lpEnd (guideEnvelope guideEmpty maxDist) \<noteq> NegInf \<longrightarrow>
      forwardRetry lpEnd guideEmpty cols maxDist =
        Some (Inr (maxDist, lpEnd (guideEnvelope guideEmpty maxDist)))"
    by (subst forwardRetry.simps) simp
  show "lpEnd (guideEnvelope guideEmpty maxDist) = NegInf \<and> 0 \<le> maxDist \<and> maxDist * 2 \<le> int cols \<longrightarrow>
      forwardRetry lpEnd guideEmpty cols maxDist = forwardRetry lpEnd guideEmpty cols (maxDist * 2)"
    by (subst forwardRetry.simps) simp
  show "lpEnd (guideEnvelope guideEmpty maxDist) = NegInf \<and> 0 \<le> maxDist \<and> int cols < maxDist * 2 \<longrightarrow>
      forwardRetry lpEnd guideEmpty cols maxDist = forwardRetry lpEnd guideEmpty cols (- 1)"
    by (subst forwardRetry.simps) simp
  show "lpEnd (guideEnvelope guideEmpty maxDist) = NegInf \<and> maxDist < 0 \<longrightarrow>
      forwardRetry lpEnd guideEmpty cols maxDist = Some (Inl ZeroLikelihood)"
    by (subst forwardRetry.simps) simp
  show "\<forall>b lp. forwardRetry lpEnd guideEmpty cols maxDist = Some (Inr (b, lp)) \<longrightarrow>
      lp = lpEnd (guideEnvelope guideEmpty b) \<and> lp \<noteq> NegInf"
    using forwardRetry_exit by blast
  show "maxDist \<noteq> 0 \<longrightarrow>
      forwardRetry lpEnd guideEmpty cols maxDist =
        Some (firstFinite lpEnd guideEmpty (bandsTried cols maxDist))"
    using forwardRetry_bands by blast
qed

text \<open>
  At a guide of 20 columns: from band 2 the loop succeeds at band 8; when no band succeeds
  it aborts after the unguided attempt.
\<close>

lemma forwardRetry_example:
  "forwardRetry (\<lambda>e. if e = GuideEnvelope 8 then LP (- 3) else NegInf) False 20 2 =
     Some (Inr (8, LP (- 3))) \<and>
   forwardRetry (\<lambda>e. NegInf) False 20 6 = Some (Inl ZeroLikelihood)"
proof -
  have a: "(2::int) \<noteq> 0" and b: "(6::int) \<noteq> 0" by simp_all
  have t1: "bandsTried 20 2 = [2, 4, 8, 16, - 1]" by simp
  have t2: "bandsTried 20 6 = [6, 12, - 1]" by simp
  from forwardRetry_rounds [of "\<lambda>e. if e = GuideEnvelope 8 then LP (- 3) else NegInf" False 2 20] a
  have r1: "forwardRetry (\<lambda>e. if e = GuideEnvelope 8 then LP (- 3) else NegInf) False 20 2 =
     Some (firstFinite (\<lambda>e. if e = GuideEnvelope 8 then LP (- 3) else NegInf) False (bandsTried 20 2))"
    by blast
  from forwardRetry_rounds [of "\<lambda>e. NegInf" False 6 20] b
  have r2: "forwardRetry (\<lambda>e. NegInf) False 20 6 = Some (firstFinite (\<lambda>e. NegInf) False (bandsTried 20 6))"
    by blast
  show ?thesis
    unfolding r1 r2 t1 t2 by (simp add: guideEnvelope_def)
qed

text \<open>
  Claim C9. The loop does not do at band 0 what it does at every other band. With
  \<open>maxDist = 0\<close> and \<open>lpEnd\<close> minus infinity the doubled band is 0 again, which does not
  exceed the guide's column count: the band is never widened, the guide constraint is never
  removed, the zero-likelihood abort is never reached, and the same Forward matrix is
  built for ever. The loop does not return.
\<close>

theorem C9_forward_retry_band_zero:
  assumes "lpEnd (guideEnvelope guideEmpty 0) = NegInf"
  shows "forwardRetry lpEnd guideEmpty cols 0 = None"
proof -
  have "\<not> (m = 0 \<and> l (guideEnvelope g 0) = NegInf)"
    if "forwardRetry l g c m = Some r" for l g c m r
    using that
    by (rule forwardRetry.raw_induct [rotated 1,
          where P = "\<lambda>l g c m r. \<not> (m = 0 \<and> l (guideEnvelope g 0) = NegInf)"])
       (auto split: if_splits)
  with assms show ?thesis
    by (cases "forwardRetry lpEnd guideEmpty cols 0") auto
qed

text \<open>
  The theorem at a guide of 20 columns and a Forward matrix that is degenerate at band 0
  and at no other band.
\<close>

theorem C9_forward_retry_band_zero_witness:
  "(\<lambda>e. if e = GuideEnvelope 0 then NegInf else LP (- 3)) (guideEnvelope False 0) = NegInf \<and>
   forwardRetry (\<lambda>e. if e = GuideEnvelope 0 then NegInf else LP (- 3)) False 20 0 = None"
proof -
  have h: "(\<lambda>e. if e = GuideEnvelope 0 then NegInf else LP (- 3)) (guideEnvelope False 0) = NegInf"
    by (simp add: guideEnvelope_def)
  from C9_forward_retry_band_zero [of "\<lambda>e. if e = GuideEnvelope 0 then NegInf else LP (- 3)" False 20, OF h] h
  show ?thesis by blast
qed

section \<open>Properties of the diagonal envelope\<close>

subsection \<open>Sets as strictly increasing lists\<close>

lemma isSet_insort_insert: "isSet s \<Longrightarrow> isSet (insort_insert d s)"
  by (simp add: isSet_def sorted_insort_insert distinct_insort_insert)

lemma fold_insort_insert_set: "set (fold insort_insert ds s) = set s \<union> set ds"
  by (induction ds arbitrary: s) (auto simp: set_insort_insert)

lemma fold_insort_insert_isSet: "isSet s \<Longrightarrow> isSet (fold insort_insert ds s)"
  by (induction ds arbitrary: s) (auto simp: isSet_insort_insert)

lemma set_insertRange: "set (insertRange lo hi s) = set s \<union> {lo..hi}"
  by (simp add: insertRange_def fold_insort_insert_set)

lemma isSet_insertRange: "isSet s \<Longrightarrow> isSet (insertRange lo hi s)"
  by (simp add: insertRange_def fold_insort_insert_isSet)

lemma halo_fold_set:
  "set (fold (\<lambda>d s. insort_insert (d + 1) (insort_insert (d - 1) (insort_insert d s))) ds s0) =
     set s0 \<union> (\<Union>d \<in> set ds. {d - 1, d, d + 1})"
  by (induction ds arbitrary: s0) (auto simp: set_insort_insert)

lemma halo_fold_isSet:
  "isSet s0 \<Longrightarrow>
   isSet (fold (\<lambda>d s. insort_insert (d + 1) (insort_insert (d - 1) (insort_insert d s))) ds s0)"
  by (induction ds arbitrary: s0) (auto simp: isSet_insort_insert)

lemma set_haloDiagonals: "set (haloDiagonals ds) = (\<Union>d \<in> set ds. {d - 1, d, d + 1})"
  by (simp add: haloDiagonals_def halo_fold_set)

lemma isSet_haloDiagonals: "isSet (haloDiagonals ds)"
proof -
  have "isSet []" by (simp add: isSet_def)
  then show ?thesis unfolding haloDiagonals_def by (rule halo_fold_isSet)
qed

lemma isSet_length_le:
  assumes "isSet a" "isSet b" "set a \<subseteq> set b \<union> extra" "finite extra"
  shows "length a \<le> length b + card extra"
proof -
  have "length a = card (set a)" using assms(1) by (simp add: isSet_def distinct_card)
  also have "\<dots> \<le> card (set b \<union> extra)" using assms(3,4) by (simp add: card_mono)
  also have "\<dots> \<le> card (set b) + card extra" by (rule card_Un_le)
  also have "card (set b) = length b" using assms(2) by (simp add: isSet_def distinct_card)
  finally show ?thesis by simp
qed

text \<open>A strictly increasing list is determined by its set.\<close>

lemma isSet_eqI: "isSet a \<Longrightarrow> isSet b \<Longrightarrow> set a = set b \<Longrightarrow> a = b"
  by (simp add: isSet_def sorted_distinct_set_unique)

lemma isSet_upto: "isSet [lo..hi]"
  by (simp add: isSet_def)

subsection \<open>Counting a range of a sorted list\<close>

lemma takeWhile_le_filter:
  "sorted xs \<Longrightarrow> takeWhile (\<lambda>d. d \<le> (hi::int)) xs = filter (\<lambda>d. d \<le> hi) xs"
proof (induction xs)
  case Nil
  then show ?case by simp
next
  case (Cons x xs)
  show ?case
  proof (cases "x \<le> hi")
    case True
    with Cons show ?thesis by simp
  next
    case False
    with Cons.prems have "\<forall>y \<in> set xs. \<not> y \<le> hi" by fastforce
    then have "filter (\<lambda>d. d \<le> hi) xs = []" by (simp add: filter_empty_conv)
    with False show ?thesis by simp
  qed
qed

lemma takeWhile_less_filter:
  "sorted xs \<Longrightarrow> takeWhile (\<lambda>d. d < (lo::int)) xs = filter (\<lambda>d. d < lo) xs"
proof (induction xs)
  case Nil
  then show ?case by simp
next
  case (Cons x xs)
  show ?case
  proof (cases "x < lo")
    case True
    with Cons show ?thesis by simp
  next
    case False
    with Cons.prems have "\<forall>y \<in> set xs. \<not> y < lo" by fastforce
    then have "filter (\<lambda>d. d < lo) xs = []" by (simp add: filter_empty_conv)
    with False show ?thesis by simp
  qed
qed

lemma length_filter_less_le:
  "(lo::int) \<le> hi + 1 \<Longrightarrow>
   length (filter (\<lambda>d. d < lo) xs) \<le> length (filter (\<lambda>d. d \<le> hi) xs)"
  by (induction xs) auto

lemma length_filter_range:
  "(lo::int) \<le> hi + 1 \<Longrightarrow>
   length (filter (\<lambda>d. d \<le> hi) xs) - length (filter (\<lambda>d. d < lo) xs) =
   length (filter (\<lambda>d. lo \<le> d \<and> d \<le> hi) xs)"
proof (induction xs)
  case Nil
  then show ?case by simp
next
  case (Cons x xs)
  from length_filter_less_le [OF Cons.prems, of xs] Cons show ?case
    by (auto simp: Suc_diff_le)
qed

subsection \<open>initStorage\<close>

lemma sameGeometry_refl: "sameGeometry env env"
  by (simp add: sameGeometry_def)

lemma sameGeometry_trans: "sameGeometry a b \<Longrightarrow> sameGeometry b c \<Longrightarrow> sameGeometry a c"
  by (simp add: sameGeometry_def)

lemma storageCount_sameGeometry: "sameGeometry env env' \<Longrightarrow> storageCount env' j = storageCount env j"
  by (simp add: sameGeometry_def storageCount_def storageBeginIntersecting_def
      storageEndIntersecting_def)

lemma takeWhile_length_mono:
  "(\<And>x. P x \<Longrightarrow> Q x) \<Longrightarrow> length (takeWhile P xs) \<le> length (takeWhile Q xs)"
  by (induction xs) auto

lemma storageBegin_le_End: "storageBeginIntersecting env j \<le> storageEndIntersecting env j"
  unfolding storageBeginIntersecting_def storageEndIntersecting_def
  by (rule takeWhile_length_mono) simp

lemma storageEnd_le_length: "storageEndIntersecting env j \<le> length (storageDiagonals env)"
  by (simp add: storageEndIntersecting_def length_takeWhile_le)

lemma storageCount_filter:
  assumes "isSet (storageDiagonals env)"
  shows "storageCount env j = length (filter (intersects env j) (storageDiagonals env))"
proof -
  from assms have srt: "sorted (storageDiagonals env)" by (simp add: isSet_def)
  have "(- int j) \<le> (int (xLen env) - int j) + 1" by simp
  from length_filter_range [OF this, of "storageDiagonals env"]
  have "storageCount env j =
      length (filter (\<lambda>d. - int j \<le> d \<and> d \<le> int (xLen env) - int j) (storageDiagonals env))"
    by (simp add: storageCount_def storageBeginIntersecting_def storageEndIntersecting_def
        takeWhile_le_filter [OF srt] takeWhile_less_filter [OF srt])
  also have "(\<lambda>d. - int j \<le> d \<and> d \<le> int (xLen env) - int j) = intersects env j"
    by (auto simp: intersects_def fun_eq_iff)
  finally show ?thesis .
qed

lemma storageIndexLoop_Inr:
  "storageIndexLoop yl ds n idx = Inr idx' \<Longrightarrow>
   length idx' = length idx \<and> (\<forall>d \<in> set ds. 0 \<le> int yl + d \<and> int yl + d < int (length idx))"
proof (induction ds arbitrary: n idx)
  case Nil
  then show ?case by simp
next
  case (Cons d ds)
  from Cons.prems have here: "0 \<le> int yl + d \<and> int yl + d < int (length idx)"
    by (simp split: if_splits)
  with Cons.prems have "storageIndexLoop yl ds (Suc n) (idx[nat (int yl + d) := int n]) = Inr idx'"
    by simp
  from Cons.IH [OF this] here show ?case by simp
qed

lemma storageIndexLoop_ok:
  "\<forall>d \<in> set ds. 0 \<le> int yl + d \<and> int yl + d < int (length idx) \<Longrightarrow>
   \<exists>idx'. storageIndexLoop yl ds n idx = Inr idx'"
  by (induction ds arbitrary: n idx) auto

lemma storageStep_Inr:
  assumes "storageStep j env = Inr env'"
  shows "sameGeometry env env' \<and>
         storageSize env' = (storageSize env)[j := storageCount env j] \<and>
         cumulStorageSize env' = (cumulStorageSize env)[j := totalStorageSize env] \<and>
         totalStorageSize env' = totalStorageSize env + storageCount env j"
  using assms
  by (auto simp: storageStep_def Let_def sameGeometry_def storageCount_def split: if_splits)

lemma storageStep_ok:
  assumes "\<forall>d \<in> set (storageDiagonals env).
             0 \<le> int (yLen env) + d \<and> int (yLen env) + d < int (length (storageIndex env))"
  shows "\<exists>env'. storageStep j env = Inr env'"
proof (cases "storageBeginIntersecting env j = storageEndIntersecting env j")
  case True
  then show ?thesis by (simp add: storageStep_def Let_def)
next
  case False
  with storageBegin_le_End [of env j] storageEnd_le_length [of env j]
  have "storageBeginIntersecting env j < length (storageDiagonals env)" by simp
  then have "storageDiagonals env ! storageBeginIntersecting env j \<in> set (storageDiagonals env)"
    by simp
  with assms have "0 \<le> int (yLen env) + storageDiagonals env ! storageBeginIntersecting env j \<and>
      int (yLen env) + storageDiagonals env ! storageBeginIntersecting env j
        < int (length (storageIndex env))" by blast
  with False show ?thesis by (simp add: storageStep_def Let_def)
qed

lemma storageLoop_append:
  "storageLoop (xs @ ys) env =
     (case storageLoop xs env of Inl e \<Rightarrow> Inl e | Inr env' \<Rightarrow> storageLoop ys env')"
  by (induction xs arbitrary: env) (auto split: sum.splits)

lemma storageLoop_upt_Inr:
  "storageLoop [0..<n] env = Inr env' \<Longrightarrow>
   n \<le> length (storageSize env) \<Longrightarrow> n \<le> length (cumulStorageSize env) \<Longrightarrow>
   sameGeometry env env' \<and>
   length (storageSize env') = length (storageSize env) \<and>
   length (cumulStorageSize env') = length (cumulStorageSize env) \<and>
   (\<forall>j < n. storageSize env' ! j = storageCount env j) \<and>
   (\<forall>j < n. cumulStorageSize env' ! j = totalStorageSize env + (\<Sum>i < j. storageCount env i)) \<and>
   totalStorageSize env' = totalStorageSize env + (\<Sum>i < n. storageCount env i)"
proof (induction n arbitrary: env')
  case 0
  then show ?case by (simp add: sameGeometry_refl)
next
  case (Suc n)
  from Suc.prems(1) obtain mid where
    mid: "storageLoop [0..<n] env = Inr mid" and step: "storageStep n mid = Inr env'"
    by (auto simp: storageLoop_append split: sum.splits)
  from Suc.prems have n1: "n \<le> length (storageSize env)" and n2: "n \<le> length (cumulStorageSize env)"
    by simp_all
  note ih = Suc.IH [OF mid n1 n2]
  note st = storageStep_Inr [OF step]
  from ih have geo: "sameGeometry env mid" by simp
  have cnt: "storageCount mid j = storageCount env j" for j
    using storageCount_sameGeometry [OF geo] .
  from Suc.prems ih have l1: "n < length (storageSize mid)" and l2: "n < length (cumulStorageSize mid)"
    by simp_all
  have g: "sameGeometry env env'" using geo st sameGeometry_trans by blast
  have a: "\<forall>j < Suc n. storageSize env' ! j = storageCount env j"
    using ih st l1 cnt by (auto simp: less_Suc_eq nth_list_update)
  have b: "\<forall>j < Suc n. cumulStorageSize env' ! j = totalStorageSize env + (\<Sum>i < j. storageCount env i)"
    using ih st l2 cnt by (auto simp: less_Suc_eq nth_list_update)
  have c: "totalStorageSize env' = totalStorageSize env + (\<Sum>i < Suc n. storageCount env i)"
    using ih st cnt by simp
  from g a b c ih st show ?case by simp
qed

lemma storageLoop_ok:
  assumes "\<forall>d \<in> set (storageDiagonals env).
             0 \<le> int (yLen env) + d \<and> int (yLen env) + d < int (length (storageIndex env))"
  shows "\<exists>env'. storageLoop js env = Inr env'"
  using assms
proof (induction js arbitrary: env)
  case Nil
  then show ?case by simp
next
  case (Cons j js)
  from storageStep_ok [OF Cons.prems, of j] obtain mid where mid: "storageStep j env = Inr mid"
    by blast
  from storageStep_Inr [OF mid] have "sameGeometry env mid" by simp
  with Cons.prems have "\<forall>d \<in> set (storageDiagonals mid).
      0 \<le> int (yLen mid) + d \<and> int (yLen mid) + d < int (length (storageIndex mid))"
    by (simp add: sameGeometry_def)
  from Cons.IH [OF this] mid show ?case by simp
qed

text \<open>What a completed \<open>initStorage\<close> leaves behind.\<close>

lemma initStorage_Inr:
  assumes "initStorage env = Inr e"
  shows "px e = px env \<and> py e = py env \<and> xLen e = xLen env \<and> yLen e = yLen env \<and>
         diagonals e = diagonals env \<and>
         storageDiagonals e = haloDiagonals (diagonals env) \<and>
         length (storageSize e) = yLen env + 1 \<and>
         length (cumulStorageSize e) = yLen env + 1 \<and>
         (\<forall>j \<le> yLen env. storageSize e ! j = storageCount e j) \<and>
         (\<forall>j \<le> yLen env. cumulStorageSize e ! j = (\<Sum>i < j. storageCount e i)) \<and>
         totalStorageSize e = (\<Sum>i \<le> yLen env. storageCount e i)"
proof -
  let ?sd = "haloDiagonals (diagonals env)"
  from assms obtain idx where
    idx: "storageIndexLoop (yLen env) ?sd 0 (replicate (xLen env + yLen env + 1) (- 1)) = Inr idx"
    by (auto simp: initStorage_def Let_def split: sum.splits)
  let ?start = "env\<lparr>storageDiagonals := ?sd, storageIndex := idx,
                    storageOffset := replicate (yLen env + 1) (- 1),
                    storageSize := replicate (yLen env + 1) 0,
                    cumulStorageSize := replicate (yLen env + 1) 0,
                    totalStorageSize := 0\<rparr>"
  from assms idx have loop: "storageLoop [0..<yLen env + 1] ?start = Inr e"
    by (simp add: initStorage_def Let_def)
  have l1: "yLen env + 1 \<le> length (storageSize ?start)" by simp
  have l2: "yLen env + 1 \<le> length (cumulStorageSize ?start)" by simp
  note r = storageLoop_upt_Inr [OF loop l1 l2]
  from r have geo: "sameGeometry ?start e" by simp
  have cnt: "storageCount e j = storageCount ?start j" for j
    using storageCount_sameGeometry [OF geo] .
  from geo have g: "px e = px env \<and> py e = py env \<and> xLen e = xLen env \<and> yLen e = yLen env \<and>
         diagonals e = diagonals env \<and> storageDiagonals e = ?sd"
    by (simp add: sameGeometry_def)
  from r have s1: "\<forall>j \<le> yLen env. storageSize e ! j = storageCount e j"
    by (simp add: cnt less_Suc_eq_le)
  from r have s2: "\<forall>j \<le> yLen env. cumulStorageSize e ! j = (\<Sum>i < j. storageCount e i)"
    by (simp add: cnt less_Suc_eq_le)
  from r have "totalStorageSize e = (\<Sum>i < Suc (yLen env). storageCount e i)"
    by (simp add: cnt)
  then have s3: "totalStorageSize e = (\<Sum>i \<le> yLen env. storageCount e i)"
    by (simp only: lessThan_Suc_atMost)
  from r have s4: "length (storageSize e) = yLen env + 1 \<and> length (cumulStorageSize e) = yLen env + 1"
    by simp
  from g s1 s2 s3 s4 show ?thesis by simp
qed

text \<open>\<open>initStorage\<close> completes when every diagonal lies strictly between \<open>-yLen\<close> and \<open>xLen\<close>.\<close>

lemma initStorage_ok:
  assumes "\<forall>d \<in> set (diagonals env). - int (yLen env) < d \<and> d < int (xLen env)"
  shows "\<exists>e. initStorage env = Inr e"
proof -
  let ?sd = "haloDiagonals (diagonals env)"
  let ?idx0 = "replicate (xLen env + yLen env + 1) (- 1 :: int)"
  have rng: "\<forall>d \<in> set ?sd. 0 \<le> int (yLen env) + d \<and> int (yLen env) + d < int (length ?idx0)"
    using assms by (fastforce simp: set_haloDiagonals)
  from storageIndexLoop_ok [OF rng, of 0] obtain idx where
    idx: "storageIndexLoop (yLen env) ?sd 0 ?idx0 = Inr idx" by blast
  from storageIndexLoop_Inr [OF idx] have len: "length idx = length ?idx0" by simp
  let ?start = "env\<lparr>storageDiagonals := ?sd, storageIndex := idx,
                    storageOffset := replicate (yLen env + 1) (- 1),
                    storageSize := replicate (yLen env + 1) 0,
                    cumulStorageSize := replicate (yLen env + 1) 0,
                    totalStorageSize := 0\<rparr>"
  have "\<forall>d \<in> set (storageDiagonals ?start).
      0 \<le> int (yLen ?start) + d \<and> int (yLen ?start) + d < int (length (storageIndex ?start))"
    using rng len by simp
  from storageLoop_ok [OF this, of "[0..<yLen env + 1]"] idx show ?thesis
    by (simp add: initStorage_def Let_def)
qed

subsection \<open>The bucket loop\<close>

lemma seedInv_initial: "seedInv (initialSeeds kmerThreshold)"
  by (simp add: seedInv_def initialSeeds_def isSet_def)

lemma seedInv_absorbSeed: "seedInv st \<Longrightarrow> seedInv (absorbSeed env h seedDiag st)"
  unfolding seedInv_def absorbSeed_def Let_def
  by (simp add: isSet_insertRange set_insertRange) fastforce

lemma seedInv_absorbBucket: "seedInv st \<Longrightarrow> seedInv (absorbBucket env h seeds st)"
  unfolding absorbBucket_def
  by (induction seeds arbitrary: st) (auto simp: seedInv_absorbSeed)

lemma seedInv_flags: "seedInv (st\<lparr>threshold := t, foundThreshold := f\<rparr>) = seedInv st"
  by (simp add: seedInv_def)

lemma seedInv_absorbBuckets:
  "seedInv st \<Longrightarrow> seedInv (absorbBuckets env h kmerThreshold dsz maxSize buckets st)"
proof (induction buckets arbitrary: st)
  case Nil
  then show ?case by simp
next
  case (Cons b buckets)
  obtain cnt seeds where b: "b = (cnt, seeds)" by (cases b)
  from Cons.prems have m: "seedInv (absorbBucket env h seeds st)" by (rule seedInv_absorbBucket)
  then have m': "seedInv ((absorbBucket env h seeds st)\<lparr>threshold := int cnt, foundThreshold := True\<rparr>)"
    by (simp only: seedInv_flags)
  from Cons.prems Cons.IH [OF m] Cons.IH [OF m'] show ?case
    by (simp add: b Let_def)
qed

lemma foundThreshold_absorbSeed: "foundThreshold (absorbSeed env h seedDiag st) = foundThreshold st"
  by (simp add: absorbSeed_def Let_def)

lemma foundThreshold_absorbBucket: "foundThreshold (absorbBucket env h seeds st) = foundThreshold st"
  unfolding absorbBucket_def
  by (induction seeds arbitrary: st) (auto simp: foundThreshold_absorbSeed)

lemma foundThreshold_kept:
  "foundThreshold st \<Longrightarrow> foundThreshold (absorbBuckets env h kmerThreshold dsz maxSize buckets st)"
proof (induction buckets arbitrary: st)
  case Nil
  then show ?case by simp
next
  case (Cons b buckets)
  obtain cnt seeds where b: "b = (cnt, seeds)" by (cases b)
  from Cons.prems have "foundThreshold (absorbBucket env h seeds st)"
    by (simp add: foundThreshold_absorbBucket)
  from Cons.IH [OF this] Cons.prems
    Cons.IH [of "(absorbBucket env h seeds st)\<lparr>threshold := int cnt, foundThreshold := True\<rparr>"]
  show ?case by (simp add: b Let_def)
qed

text \<open>In memory-bound mode a state without a threshold is the state before the loop.\<close>

lemma absorbBuckets_nothing:
  assumes "kmerThreshold < 0"
    and "\<not> foundThreshold (absorbBuckets env h kmerThreshold dsz maxSize buckets st)"
  shows "absorbBuckets env h kmerThreshold dsz maxSize buckets st = st"
proof (cases buckets)
  case Nil
  then show ?thesis by simp
next
  case (Cons b rest)
  obtain cnt seeds where b: "b = (cnt, seeds)" by (cases b)
  let ?more = "absorbBucket env h seeds st"
  show ?thesis
  proof (cases "int maxSize \<le> asSize (int (length (storageDiags ?more)) * dsz)")
    case True
    with assms(1) show ?thesis by (simp add: Cons b Let_def)
  next
    case False
    have "foundThreshold (absorbBuckets env h kmerThreshold dsz maxSize rest
            (?more\<lparr>threshold := int cnt, foundThreshold := True\<rparr>))"
      by (rule foundThreshold_kept) simp
    with assms False show ?thesis by (simp add: Cons b Let_def)
  qed
qed

text \<open>With a configured threshold the loop consults neither the budget nor the cell size.\<close>

lemma absorbBuckets_threshold:
  "0 \<le> kmerThreshold \<Longrightarrow>
   absorbBuckets env h kmerThreshold dsz maxSize buckets st =
   absorbBuckets env h kmerThreshold dsz' maxSize' buckets st"
proof (induction buckets arbitrary: st)
  case Nil
  then show ?case by simp
next
  case (Cons b buckets)
  obtain cnt seeds where b: "b = (cnt, seeds)" by (cases b)
  from Cons show ?case by (simp add: b Let_def)
qed

text \<open>
  In memory-bound mode the loop absorbs the longest run of leading buckets whose tested
  size stays below the budget.
\<close>

lemma absorbedAfter_0: "absorbedAfter env h buckets 0 st = st"
  by (simp add: absorbedAfter_def)

lemma absorbedAfter_Cons:
  "absorbedAfter env h ((cnt, seeds) # rest) (Suc k) st =
     absorbedAfter env h rest k ((absorbBucket env h seeds st)\<lparr>threshold := int cnt, foundThreshold := True\<rparr>)"
  by (simp add: absorbedAfter_def)

lemma storageDiags_flags: "storageDiags (st\<lparr>threshold := t, foundThreshold := f\<rparr>) = storageDiags st"
  by simp

lemma testedSize_Cons:
  "testedSize env h dsz ((cnt, seeds) # rest) (Suc i) st =
     testedSize env h dsz rest i ((absorbBucket env h seeds st)\<lparr>threshold := int cnt, foundThreshold := True\<rparr>)"
  by (simp add: testedSize_def absorbedAfter_Cons)

lemma absorbBuckets_prefix:
  assumes "kmerThreshold < 0"
  shows "\<exists>k \<le> length buckets.
           absorbBuckets env h kmerThreshold dsz maxSize buckets st = absorbedAfter env h buckets k st \<and>
           (\<forall>i. 0 < i \<and> i \<le> k \<longrightarrow> testedSize env h dsz buckets i st < int maxSize) \<and>
           (k < length buckets \<longrightarrow> int maxSize \<le> testedSize env h dsz buckets (Suc k) st)"
proof (induction buckets arbitrary: st)
  case Nil
  show ?case by (simp add: absorbedAfter_0)
next
  case (Cons b rest)
  obtain cnt seeds where b: "b = (cnt, seeds)" by (cases b)
  let ?more = "absorbBucket env h seeds st"
  let ?next = "?more\<lparr>threshold := int cnt, foundThreshold := True\<rparr>"
  have t1: "testedSize env h dsz (b # rest) (Suc 0) st = asSize (int (length (storageDiags ?more)) * dsz)"
    by (simp add: b testedSize_Cons) (simp add: testedSize_def absorbedAfter_0)
  show ?case
  proof (cases "int maxSize \<le> asSize (int (length (storageDiags ?more)) * dsz)")
    case True
    with assms have run: "absorbBuckets env h kmerThreshold dsz maxSize (b # rest) st = st"
      by (simp add: b Let_def)
    show ?thesis
      apply (rule exI [of _ 0])
      using True run t1 by (simp add: absorbedAfter_0)
  next
    case False
    with assms have run: "absorbBuckets env h kmerThreshold dsz maxSize (b # rest) st =
        absorbBuckets env h kmerThreshold dsz maxSize rest ?next"
      by (simp add: b Let_def)
    from Cons.IH [of ?next] obtain k where k: "k \<le> length rest"
      and eq: "absorbBuckets env h kmerThreshold dsz maxSize rest ?next = absorbedAfter env h rest k ?next"
      and below: "\<forall>i. 0 < i \<and> i \<le> k \<longrightarrow> testedSize env h dsz rest i ?next < int maxSize"
      and stop: "k < length rest \<longrightarrow> int maxSize \<le> testedSize env h dsz rest (Suc k) ?next"
      by blast
    have a: "absorbBuckets env h kmerThreshold dsz maxSize (b # rest) st =
        absorbedAfter env h (b # rest) (Suc k) st"
      unfolding run eq by (simp add: b absorbedAfter_Cons)
    have c: "\<forall>i. 0 < i \<and> i \<le> Suc k \<longrightarrow> testedSize env h dsz (b # rest) i st < int maxSize"
    proof (intro allI impI)
      fix i assume i: "0 < i \<and> i \<le> Suc k"
      then obtain j where j: "i = Suc j" by (cases i) auto
      show "testedSize env h dsz (b # rest) i st < int maxSize"
      proof (cases "j = 0")
        case True
        with False t1 j show ?thesis by simp
      next
        case nz: False
        with i j below have "testedSize env h dsz rest j ?next < int maxSize" by simp
        then show ?thesis by (simp add: j b testedSize_Cons)
      qed
    qed
    have d: "Suc k < length (b # rest) \<longrightarrow>
        int maxSize \<le> testedSize env h dsz (b # rest) (Suc (Suc k)) st"
      using stop by (simp add: b testedSize_Cons)
    from k a c d show ?thesis
      by (intro exI [of _ "Suc k"]) simp
  qed
qed

lemma absorbedAfter_found:
  "0 < k \<Longrightarrow> k \<le> length buckets \<Longrightarrow> foundThreshold (absorbedAfter env h buckets k st)"
proof (induction buckets arbitrary: k st)
  case Nil
  then show ?case by simp
next
  case (Cons b rest)
  obtain cnt seeds where b: "b = (cnt, seeds)" by (cases b)
  from Cons.prems obtain j where j: "k = Suc j" by (cases k) auto
  show ?case
  proof (cases "j = 0")
    case True
    then show ?thesis by (simp add: j b absorbedAfter_Cons absorbedAfter_0)
  next
    case False
    with Cons.prems j have "foundThreshold (absorbedAfter env h rest j
        ((absorbBucket env h seeds st)\<lparr>threshold := int cnt, foundThreshold := True\<rparr>))"
      by (intro Cons.IH) simp_all
    then show ?thesis by (simp add: j b absorbedAfter_Cons)
  qed
qed

subsection \<open>The k-mer scan\<close>

lemma kmerScan_ok:
  "\<forall>i \<in> set is. i + kmerLen yKmerIndex \<le> length xTok \<Longrightarrow>
   \<exists>m'. kmerScan kmerValid makeKmer xTok yKmerIndex is m = Inr m'"
  by (induction "is" arbitrary: m) (auto simp: Let_def split: option.splits)

lemma sparseSeeds_ok:
  assumes "kmerLen yKmerIndex \<le> xLen env" and "xLen env \<le> length xTok"
  shows "\<exists>st. sparseSeeds kmerValid makeKmer xTok env yKmerIndex bandSize kmerThreshold cellSize maxSize
           = Inr st"
proof -
  from assms have "\<forall>i \<in> set [0..<xLen env - kmerLen yKmerIndex + 1]. i + kmerLen yKmerIndex \<le> length xTok"
    by auto
  from kmerScan_ok [OF this, of kmerValid makeKmer "[]"] assms(1) show ?thesis
    by (auto simp: sparseSeeds_def diagKmerCount_def)
qed

lemma sparseSeeds_seedInv:
  "sparseSeeds kmerValid makeKmer xTok env yKmerIndex bandSize kmerThreshold cellSize maxSize = Inr st
   \<Longrightarrow> seedInv st"
  by (auto simp: sparseSeeds_def seedInv_absorbBuckets seedInv_initial split: sum.splits)

subsection \<open>The envelope after initialisation\<close>

lemma haloDiagonals_upto: "lo \<le> hi \<Longrightarrow> haloDiagonals [lo..hi] = [lo - 1..hi + 1]"
proof (rule isSet_eqI)
  show "isSet (haloDiagonals [lo..hi])" by (rule isSet_haloDiagonals)
  show "isSet [lo - 1..hi + 1]" by (rule isSet_upto)
  assume le: "lo \<le> hi"
  show "set (haloDiagonals [lo..hi]) = set [lo - 1..hi + 1]"
  proof
    show "set (haloDiagonals [lo..hi]) \<subseteq> set [lo - 1..hi + 1]"
      by (auto simp: set_haloDiagonals)
    show "set [lo - 1..hi + 1] \<subseteq> set (haloDiagonals [lo..hi])"
    proof
      fix d assume "d \<in> set [lo - 1..hi + 1]"
      then have d: "lo - 1 \<le> d" "d \<le> hi + 1" by simp_all
      let ?c = "max lo (min hi d)"
      from le d have "?c \<in> set [lo..hi]" and "d \<in> {?c - 1, ?c, ?c + 1}" by auto
      then show "d \<in> set (haloDiagonals [lo..hi])"
        unfolding set_haloDiagonals by blast
    qed
  qed
qed

lemma haloDiagonals_zero: "haloDiagonals [0] = [- 1, 0, 1]"
  using haloDiagonals_upto [of 0 0] by (simp add: upto_rec1)

text \<open>The soundness of an envelope, as the claim lists it.\<close>

lemma initStorage_sound:
  assumes "initStorage env = Inr e"
  shows "set (diagonals e) \<subseteq> set (storageDiagonals e) \<and>
         isSet (storageDiagonals e) \<and>
         (\<forall>j \<le> yLen e. storageSize e ! j = card {d \<in> set (storageDiagonals e). intersects e j d}) \<and>
         totalStorageSize e = (\<Sum>j \<le> yLen e. storageSize e ! j) \<and>
         (\<forall>j \<le> yLen e. cumulStorageSize e ! j = (\<Sum>i < j. storageSize e ! i))"
proof -
  note r = initStorage_Inr [OF assms]
  from r have sd: "storageDiagonals e = haloDiagonals (diagonals e)" by simp
  have iss: "isSet (storageDiagonals e)" unfolding sd by (rule isSet_haloDiagonals)
  have sub: "set (diagonals e) \<subseteq> set (storageDiagonals e)"
    unfolding sd by (auto simp: set_haloDiagonals)
  from r have yl: "yLen e = yLen env" by simp
  have cnt: "storageCount e j = card {d \<in> set (storageDiagonals e). intersects e j d}" for j
  proof -
    from iss have "distinct (storageDiagonals e)" by (simp add: isSet_def)
    then have "length (filter (intersects e j) (storageDiagonals e)) =
        card ({d. intersects e j d} \<inter> set (storageDiagonals e))"
      by (rule distinct_length_filter)
    also have "{d. intersects e j d} \<inter> set (storageDiagonals e) =
        {d \<in> set (storageDiagonals e). intersects e j d}" by auto
    finally show ?thesis by (simp add: storageCount_filter [OF iss])
  qed
  from r have sz: "\<forall>j \<le> yLen e. storageSize e ! j = storageCount e j" by (simp add: yl)
  then have a: "\<forall>j \<le> yLen e. storageSize e ! j = card {d \<in> set (storageDiagonals e). intersects e j d}"
    by (simp add: cnt)
  from r have "totalStorageSize e = (\<Sum>i \<le> yLen e. storageCount e i)" by (simp add: yl)
  also have "\<dots> = (\<Sum>j \<le> yLen e. storageSize e ! j)" using sz by simp
  finally have b: "totalStorageSize e = (\<Sum>j \<le> yLen e. storageSize e ! j)" .
  have c: "\<forall>j \<le> yLen e. cumulStorageSize e ! j = (\<Sum>i < j. storageSize e ! i)"
  proof (intro allI impI)
    fix j assume j: "j \<le> yLen e"
    with r have "cumulStorageSize e ! j = (\<Sum>i < j. storageCount e i)" by (simp add: yl)
    also have "\<dots> = (\<Sum>i < j. storageSize e ! i)" using sz j by simp
    finally show "cumulStorageSize e ! j = (\<Sum>i < j. storageSize e ! i)" .
  qed
  from sub iss a b c show ?thesis by simp
qed

subsection \<open>Values that fit their machine type\<close>

lemma asUnsigned_id: "0 \<le> i \<Longrightarrow> i < 2 ^ 32 \<Longrightarrow> asUnsigned i = i"
  by (simp add: asUnsigned_def)

lemma asSize_id: "0 \<le> i \<Longrightarrow> i < 2 ^ 64 \<Longrightarrow> asSize i = i"
  by (simp add: asSize_def)

lemma minLenForSparse_exact:
  assumes "0 \<le> kmerThreshold" and "2 * (int (kmerLen yKmerIndex) + kmerThreshold) < 2 ^ 32"
  shows "minLenForSparse yKmerIndex kmerThreshold = 2 * (int (kmerLen yKmerIndex) + kmerThreshold)"
proof -
  from assms have a: "asUnsigned (int (kmerLen yKmerIndex) + kmerThreshold) =
      int (kmerLen yKmerIndex) + kmerThreshold"
    by (intro asUnsigned_id) simp_all
  from assms show ?thesis
    unfolding minLenForSparse_def a by (intro asUnsigned_id) simp_all
qed

lemma fullSize_exact:
  assumes "xLen env * yLen env < 2 ^ 32" and "xLen env * yLen env * cellSize < 2 ^ 64"
  shows "fullSize env cellSize = int (xLen env * yLen env * cellSize)"
proof -
  from assms(1) have "int (xLen env) * int (yLen env) < 2 ^ 32"
    by (metis of_nat_mult of_nat_less_iff of_nat_numeral of_nat_power)
  then have a: "asUnsigned (int (xLen env) * int (yLen env)) = int (xLen env) * int (yLen env)"
    by (intro asUnsigned_id) simp_all
  from assms(2) have "int (xLen env) * int (yLen env) * int cellSize < 2 ^ 64"
    by (metis of_nat_mult of_nat_less_iff of_nat_numeral of_nat_power)
  then show ?thesis
    unfolding fullSize_def a by (simp add: asSize_id)
qed

lemma fullSize_positive:
  assumes "0 < fullSize env cellSize"
  shows "0 < xLen env \<and> 0 < yLen env"
proof -
  have "fullSize env cellSize = 0" if "xLen env = 0 \<or> yLen env = 0"
    using that by (auto simp: fullSize_def asSize_def asUnsigned_def)
  with assms have "\<not> (xLen env = 0 \<or> yLen env = 0)" by force
  then show ?thesis by simp
qed

subsection \<open>\<open>initFull\<close> and \<open>initSparse\<close>\<close>

lemma initFull_Inr:
  "initFull env = Inr e \<Longrightarrow> initStorage (env\<lparr>diagonals := [minDiagonal env..maxDiagonal env]\<rparr>) = Inr e"
  by (simp add: initFull_def split: if_splits)

lemma initFull_run:
  assumes "0 < xLen env + yLen env" and "xLen env + yLen env < 2 ^ 32"
  shows "initFull env = initStorage (env\<lparr>diagonals := [minDiagonal env..maxDiagonal env]\<rparr>)"
proof -
  from assms(2) have "int (xLen env) + int (yLen env) < 2 ^ 32"
    by (metis of_nat_add of_nat_less_iff of_nat_numeral of_nat_power)
  moreover from assms(1) have "0 < int (xLen env) + int (yLen env)" by linarith
  ultimately have "asUnsigned (int (xLen env) + int (yLen env) - 1) = int (xLen env) + int (yLen env) - 1"
    by (intro asUnsigned_id) simp_all
  with assms show ?thesis by (simp add: initFull_def)
qed

text \<open>
  The full envelope: the compute diagonals \<open>1 - yLen .. xLen - 1\<close> and, when there is one,
  the storage diagonals \<open>-yLen .. xLen\<close>.
\<close>

lemma initFull_ok:
  assumes "0 < xLen env + yLen env" and "xLen env + yLen env < 2 ^ 32"
  shows "\<exists>e. initFull env = Inr e \<and>
             diagonals e = [1 - int (yLen env)..int (xLen env) - 1] \<and>
             (2 \<le> xLen env + yLen env \<longrightarrow> storageDiagonals e = [- int (yLen env)..int (xLen env)])"
proof -
  let ?env = "env\<lparr>diagonals := [minDiagonal env..maxDiagonal env]\<rparr>"
  have "\<forall>d \<in> set (diagonals ?env). - int (yLen ?env) < d \<and> d < int (xLen ?env)"
    by (auto simp: minDiagonal_def maxDiagonal_def)
  from initStorage_ok [OF this] obtain e where e: "initStorage ?env = Inr e" by blast
  from initStorage_Inr [OF e] have d: "diagonals e = [1 - int (yLen env)..int (xLen env) - 1]"
    and s: "storageDiagonals e = haloDiagonals [1 - int (yLen env)..int (xLen env) - 1]"
    by (simp_all add: minDiagonal_def maxDiagonal_def)
  have "storageDiagonals e = [- int (yLen env)..int (xLen env)]" if "2 \<le> xLen env + yLen env"
  proof -
    from that have "1 - int (yLen env) \<le> int (xLen env) - 1" by simp
    from haloDiagonals_upto [OF this] show ?thesis by (simp add: s)
  qed
  with e d initFull_run [OF assms] show ?thesis by simp
qed

lemma sparseEnvelope_threshold:
  assumes "0 \<le> kmerThreshold"
  shows "sparseEnvelope kmerValid makeKmer xTok env yKmerIndex bandSize kmerThreshold cellSize maxSize =
         sparseEnvelope kmerValid makeKmer xTok env yKmerIndex bandSize kmerThreshold cellSize' maxSize'"
proof -
  have "sparseSeeds kmerValid makeKmer xTok env yKmerIndex bandSize kmerThreshold cellSize maxSize =
        sparseSeeds kmerValid makeKmer xTok env yKmerIndex bandSize kmerThreshold cellSize' maxSize'"
    unfolding sparseSeeds_def
    using absorbBuckets_threshold [OF assms, of env "bandSize div 2" "diagSize env cellSize" maxSize _ _
        "diagSize env cellSize'" maxSize']
    by (simp split: sum.splits)
  then show ?thesis by (simp add: sparseEnvelope_def)
qed

lemma initSparse_cases:
  assumes "initSparse kmerValid makeKmer xTok env yKmerIndex bandSize kmerThreshold cellSize maxSize = Inr e"
  shows "initFull env = Inr e \<or>
         sparseEnvelope kmerValid makeKmer xTok env yKmerIndex bandSize kmerThreshold cellSize maxSize = Inr e"
  using assms by (auto simp: initSparse_def split: if_splits)

lemma sparseEnvelope_Inr:
  assumes "sparseEnvelope kmerValid makeKmer xTok env yKmerIndex bandSize kmerThreshold cellSize maxSize = Inr e"
  shows "\<exists>st. sparseSeeds kmerValid makeKmer xTok env yKmerIndex bandSize kmerThreshold cellSize maxSize = Inr st \<and>
              initStorage (env\<lparr>diagonals := diags st\<rparr>) = Inr e"
  using assms by (auto simp: sparseEnvelope_def split: sum.splits)

text \<open>
  Claim C3, as amended. After \<open>initFull\<close> or \<open>initSparse\<close> every compute diagonal is a
  storage diagonal; diagonal 0 is a storage diagonal when the two sequences have two
  residues or more between them, and whenever the envelope comes from the sparse seeding;
  \<open>storageSize[j]\<close> is the number of storage diagonals that intersect column \<open>j\<close> for every
  \<open>j\<close> in \<open>0..yLen\<close>, \<open>totalStorageSize\<close> is the sum of the \<open>storageSize[j]\<close> and
  \<open>cumulStorageSize[j]\<close> the sum of those before \<open>j\<close>.
\<close>

theorem C3_envelope_sound:
  assumes "initFull env = Inr e \<or>
           initSparse kmerValid makeKmer xTok env yKmerIndex bandSize kmerThreshold cellSize maxSize = Inr e"
  shows "set (diagonals e) \<subseteq> set (storageDiagonals e) \<and>
         (2 \<le> xLen env + yLen env \<longrightarrow> 0 \<in> set (storageDiagonals e)) \<and>
         (sparseEnvelope kmerValid makeKmer xTok env yKmerIndex bandSize kmerThreshold cellSize maxSize = Inr e
            \<longrightarrow> 0 \<in> set (storageDiagonals e)) \<and>
         (\<forall>j \<le> yLen e. storageSize e ! j = card {d \<in> set (storageDiagonals e). intersects e j d}) \<and>
         totalStorageSize e = (\<Sum>j \<le> yLen e. storageSize e ! j) \<and>
         (\<forall>j \<le> yLen e. cumulStorageSize e ! j = (\<Sum>i < j. storageSize e ! i))"
proof -
  have sparse0: "0 \<in> set (storageDiagonals e')"
    if "sparseEnvelope kmerValid makeKmer xTok env yKmerIndex bandSize kmerThreshold cellSize maxSize = Inr e'"
    for e'
  proof -
    from sparseEnvelope_Inr [OF that] obtain st where
      st: "sparseSeeds kmerValid makeKmer xTok env yKmerIndex bandSize kmerThreshold cellSize maxSize = Inr st"
      and run: "initStorage (env\<lparr>diagonals := diags st\<rparr>) = Inr e'" by blast
    from sparseSeeds_seedInv [OF st] have "0 \<in> set (diags st)" by (simp add: seedInv_def)
    then have "0 \<in> set (haloDiagonals (diags st))" by (auto simp: set_haloDiagonals)
    with initStorage_Inr [OF run] show ?thesis by simp
  qed
  have full0: "0 \<in> set (storageDiagonals e')"
    if "initFull env = Inr e'" and two: "2 \<le> xLen env + yLen env" for e'
  proof -
    from initFull_Inr [OF that(1)] have
      run: "initStorage (env\<lparr>diagonals := [minDiagonal env..maxDiagonal env]\<rparr>) = Inr e'" .
    from two have "minDiagonal env \<le> maxDiagonal env" by (simp add: minDiagonal_def maxDiagonal_def)
    from haloDiagonals_upto [OF this] initStorage_Inr [OF run]
    have "storageDiagonals e' = [minDiagonal env - 1..maxDiagonal env + 1]" by simp
    then show ?thesis by (simp add: minDiagonal_def maxDiagonal_def)
  qed
  from assms initSparse_cases have either: "initFull env = Inr e \<or>
      sparseEnvelope kmerValid makeKmer xTok env yKmerIndex bandSize kmerThreshold cellSize maxSize = Inr e"
    by blast
  then have zero: "2 \<le> xLen env + yLen env \<longrightarrow> 0 \<in> set (storageDiagonals e)"
    using full0 sparse0 by blast
  from either have "\<exists>env'. initStorage env' = Inr e"
  proof
    assume "initFull env = Inr e"
    from initFull_Inr [OF this] show ?thesis by blast
  next
    assume "sparseEnvelope kmerValid makeKmer xTok env yKmerIndex bandSize kmerThreshold cellSize maxSize
              = Inr e"
    from sparseEnvelope_Inr [OF this] show ?thesis by blast
  qed
  then obtain env' where st: "initStorage env' = Inr e" ..
  from initStorage_sound [OF st] zero sparse0 show ?thesis by simp
qed

theorem C3_envelope_sound_witness:
  "let env = exampleEnvelope ''AC'' ''AC'';
       e = env\<lparr>diagonals := [- 1, 0, 1], storageDiagonals := [- 2, - 1, 0, 1, 2],
             storageIndex := [0, 1, 2, 3, 4], storageOffset := [2, 1, 0],
             storageSize := [3, 3, 3], cumulStorageSize := [0, 3, 6], totalStorageSize := 9\<rparr>
   in initFull env = Inr e \<and> 2 \<le> xLen env + yLen env \<and>
      set (diagonals e) \<subseteq> set (storageDiagonals e) \<and>
      0 \<in> set (storageDiagonals e) \<and>
      storageSize e ! 1 = card {d \<in> set (storageDiagonals e). intersects e 1 d} \<and>
      totalStorageSize e = (\<Sum>j \<le> yLen e. storageSize e ! j) \<and>
      cumulStorageSize e ! 2 = (\<Sum>i < 2. storageSize e ! i)"
proof -
  let ?env = "exampleEnvelope ''AC'' ''AC''"
  let ?e = "?env\<lparr>diagonals := [- 1, 0, 1], storageDiagonals := [- 2, - 1, 0, 1, 2],
             storageIndex := [0, 1, 2, 3, 4], storageOffset := [2, 1, 0],
             storageSize := [3, 3, 3], cumulStorageSize := [0, 3, 6], totalStorageSize := 9\<rparr>"
  have run: "initFull ?env = Inr ?e" by code_simp
  have two: "2 \<le> xLen ?env + yLen ?env" by (simp add: exampleEnvelope_def)
  have y1: "1 \<le> yLen ?e" and y2: "2 \<le> yLen ?e" by (simp_all add: exampleEnvelope_def)
  note snd = C3_envelope_sound [OF disjI1 [OF run]]
  from snd y1 have a: "storageSize ?e ! 1 = card {d \<in> set (storageDiagonals ?e). intersects ?e 1 d}"
    by blast
  from snd y2 have b: "cumulStorageSize ?e ! 2 = (\<Sum>i < 2. storageSize ?e ! i)"
    by blast
  from snd two have z: "0 \<in> set (storageDiagonals ?e)" by blast
  from snd a b z run two show ?thesis unfolding Let_def by blast
qed

text \<open>
  The claim as stated fails: diagonal 0 is not always a storage diagonal. For a sequence of
  one residue and an empty one the compute diagonals would run from 1 to 0: the full
  envelope has no diagonal at all. \<open>initSparse\<close> builds the same envelope when a threshold is
  configured, both sequences being shorter than \<open>2 * (kmerLen + kmerThreshold)\<close>.
\<close>

theorem C3_envelope_sound_counterexample:
  "initFull (exampleEnvelope ''A'' '''') =
     Inr ((exampleEnvelope ''A'' '''')
            \<lparr>diagonals := [], storageDiagonals := [], storageIndex := [- 1, - 1],
             storageOffset := [- 1], storageSize := [0], cumulStorageSize := [0],
             totalStorageSize := 0\<rparr>) \<and>
   initSparse (\<lambda>k w. True) (\<lambda>k w a. 0) [0] (exampleEnvelope ''A'' '''')
      \<lparr>kmerLen = 5, alphabet = ''ACGT'', kmerLocations = Map.empty\<rparr> 2 1 8 0 =
     initFull (exampleEnvelope ''A'' '''') \<and>
   0 \<notin> set (storageDiagonals ((exampleEnvelope ''A'' '''')
            \<lparr>diagonals := [], storageDiagonals := [], storageIndex := [- 1, - 1],
             storageOffset := [- 1], storageSize := [0], cumulStorageSize := [0],
             totalStorageSize := 0\<rparr>))"
  by code_simp

text \<open>
  Claim C6, as amended. Which envelope \<open>initSparse\<close> returns is decided by one test, that of
  the mode in force. With a configured threshold (\<open>kmerThreshold \<ge> 0\<close>) it returns the full
  envelope when one of the sequences is shorter than \<open>2 * (kmerLen + kmerThreshold)\<close> and
  the envelope of the sparse seeding otherwise, and for no pair of sequences does the
  result depend on \<open>cellSize\<close> or \<open>maxSize\<close>. In memory-bound mode (\<open>kmerThreshold < 0\<close>) it
  returns the full envelope when \<open>xLen * yLen * cellSize < maxSize\<close> and the envelope of the
  sparse seeding otherwise, however short the sequences. The full envelope is built for
  every pair of sequences that are not both empty; it has the compute diagonals
  \<open>1 - yLen .. xLen - 1\<close> and, when the sequences have two residues or more between them,
  the storage diagonals \<open>-yLen .. xLen\<close>. The hypotheses say that the numbers compared fit
  their machine types: \<open>2 * (kmerLen + kmerThreshold)\<close> an \<^verbatim>\<open>unsigned int\<close>, \<open>xLen * yLen\<close> a
  \<^verbatim>\<open>SeqIdx\<close> and \<open>xLen * yLen * cellSize\<close> a \<^verbatim>\<open>size_t\<close>.
\<close>

theorem C6_initSparse_full:
  assumes "0 \<le> kmerThreshold \<longrightarrow> 2 * (int (kmerLen yKmerIndex) + kmerThreshold) < 2 ^ 32"
    and "kmerThreshold < 0 \<longrightarrow>
           xLen env * yLen env < 2 ^ 32 \<and> xLen env * yLen env * cellSize < 2 ^ 64"
  shows "(0 \<le> kmerThreshold \<and>
            (int (length (seq (px env))) < 2 * (int (kmerLen yKmerIndex) + kmerThreshold) \<or>
             int (length (seq (py env))) < 2 * (int (kmerLen yKmerIndex) + kmerThreshold)) \<longrightarrow>
          initSparse kmerValid makeKmer xTok env yKmerIndex bandSize kmerThreshold cellSize maxSize
            = initFull env) \<and>
         (0 \<le> kmerThreshold \<and>
            \<not> (int (length (seq (px env))) < 2 * (int (kmerLen yKmerIndex) + kmerThreshold) \<or>
               int (length (seq (py env))) < 2 * (int (kmerLen yKmerIndex) + kmerThreshold)) \<longrightarrow>
          initSparse kmerValid makeKmer xTok env yKmerIndex bandSize kmerThreshold cellSize maxSize
            = sparseEnvelope kmerValid makeKmer xTok env yKmerIndex bandSize kmerThreshold cellSize maxSize) \<and>
         (0 \<le> kmerThreshold \<longrightarrow>
          initSparse kmerValid makeKmer xTok env yKmerIndex bandSize kmerThreshold cellSize maxSize
            = initSparse kmerValid makeKmer xTok env yKmerIndex bandSize kmerThreshold cellSize' maxSize') \<and>
         (kmerThreshold < 0 \<and> xLen env * yLen env * cellSize < maxSize \<longrightarrow>
          initSparse kmerValid makeKmer xTok env yKmerIndex bandSize kmerThreshold cellSize maxSize
            = initFull env) \<and>
         (kmerThreshold < 0 \<and> maxSize \<le> xLen env * yLen env * cellSize \<longrightarrow>
          initSparse kmerValid makeKmer xTok env yKmerIndex bandSize kmerThreshold cellSize maxSize
            = sparseEnvelope kmerValid makeKmer xTok env yKmerIndex bandSize kmerThreshold cellSize maxSize) \<and>
         (0 < xLen env + yLen env \<and> xLen env + yLen env < 2 ^ 32 \<longrightarrow>
          (\<exists>e. initFull env = Inr e \<and>
               diagonals e = [1 - int (yLen env)..int (xLen env) - 1] \<and>
               (2 \<le> xLen env + yLen env \<longrightarrow>
                  storageDiagonals e = [- int (yLen env)..int (xLen env)])))"
proof -
  have a: "0 \<le> kmerThreshold \<and>
            (int (length (seq (px env))) < 2 * (int (kmerLen yKmerIndex) + kmerThreshold) \<or>
             int (length (seq (py env))) < 2 * (int (kmerLen yKmerIndex) + kmerThreshold)) \<longrightarrow>
          initSparse kmerValid makeKmer xTok env yKmerIndex bandSize kmerThreshold cellSize maxSize
            = initFull env"
    using assms(1) by (auto simp: initSparse_def minLenForSparse_exact)
  have b: "0 \<le> kmerThreshold \<and>
            \<not> (int (length (seq (px env))) < 2 * (int (kmerLen yKmerIndex) + kmerThreshold) \<or>
               int (length (seq (py env))) < 2 * (int (kmerLen yKmerIndex) + kmerThreshold)) \<longrightarrow>
          initSparse kmerValid makeKmer xTok env yKmerIndex bandSize kmerThreshold cellSize maxSize
            = sparseEnvelope kmerValid makeKmer xTok env yKmerIndex bandSize kmerThreshold cellSize maxSize"
    using assms(1) by (auto simp: initSparse_def minLenForSparse_exact)
  have c: "0 \<le> kmerThreshold \<longrightarrow>
          initSparse kmerValid makeKmer xTok env yKmerIndex bandSize kmerThreshold cellSize maxSize
            = initSparse kmerValid makeKmer xTok env yKmerIndex bandSize kmerThreshold cellSize' maxSize'"
  proof
    assume t: "0 \<le> kmerThreshold"
    from sparseEnvelope_threshold [OF t, of kmerValid makeKmer xTok env yKmerIndex bandSize cellSize maxSize
        cellSize' maxSize'] t
    show "initSparse kmerValid makeKmer xTok env yKmerIndex bandSize kmerThreshold cellSize maxSize
            = initSparse kmerValid makeKmer xTok env yKmerIndex bandSize kmerThreshold cellSize' maxSize'"
      by (simp add: initSparse_def)
  qed
  have size: "fullSize env cellSize = int (xLen env * yLen env * cellSize)" if "kmerThreshold < 0"
    using that assms(2) by (simp add: fullSize_exact)
  have d: "kmerThreshold < 0 \<and> xLen env * yLen env * cellSize < maxSize \<longrightarrow>
          initSparse kmerValid makeKmer xTok env yKmerIndex bandSize kmerThreshold cellSize maxSize
            = initFull env"
  proof
    assume h: "kmerThreshold < 0 \<and> xLen env * yLen env * cellSize < maxSize"
    with size have "fullSize env cellSize < int maxSize" by (simp only: of_nat_less_iff)
    with h show "initSparse kmerValid makeKmer xTok env yKmerIndex bandSize kmerThreshold cellSize maxSize
            = initFull env"
      by (simp add: initSparse_def)
  qed
  have e: "kmerThreshold < 0 \<and> maxSize \<le> xLen env * yLen env * cellSize \<longrightarrow>
          initSparse kmerValid makeKmer xTok env yKmerIndex bandSize kmerThreshold cellSize maxSize
            = sparseEnvelope kmerValid makeKmer xTok env yKmerIndex bandSize kmerThreshold cellSize maxSize"
  proof
    assume h: "kmerThreshold < 0 \<and> maxSize \<le> xLen env * yLen env * cellSize"
    with size have "\<not> fullSize env cellSize < int maxSize" by (simp only: of_nat_less_iff not_less)
    with h show "initSparse kmerValid makeKmer xTok env yKmerIndex bandSize kmerThreshold cellSize maxSize
            = sparseEnvelope kmerValid makeKmer xTok env yKmerIndex bandSize kmerThreshold cellSize maxSize"
      by (simp add: initSparse_def)
  qed
  have f: "0 < xLen env + yLen env \<and> xLen env + yLen env < 2 ^ 32 \<longrightarrow>
          (\<exists>e. initFull env = Inr e \<and>
               diagonals e = [1 - int (yLen env)..int (xLen env) - 1] \<and>
               (2 \<le> xLen env + yLen env \<longrightarrow>
                  storageDiagonals e = [- int (yLen env)..int (xLen env)]))"
  proof
    assume "0 < xLen env + yLen env \<and> xLen env + yLen env < 2 ^ 32"
    then have h1: "0 < xLen env + yLen env" and h2: "xLen env + yLen env < 2 ^ 32" by simp_all
    from initFull_ok [OF h1 h2]
    show "\<exists>e. initFull env = Inr e \<and>
               diagonals e = [1 - int (yLen env)..int (xLen env) - 1] \<and>
               (2 \<le> xLen env + yLen env \<longrightarrow>
                  storageDiagonals e = [- int (yLen env)..int (xLen env)])" .
  qed
  from a b c d e f show ?thesis by (intro conjI)
qed

text \<open>
  The theorem at two sequences of length 3 with \<open>kmerLen = 2\<close>: with threshold 1 they are
  shorter than 6 and the envelope is the full one, with the diagonals \<open>-2 .. 2\<close> and the
  storage diagonals \<open>-3 .. 3\<close>; so it is in memory-bound mode with a budget of 1000 bytes;
  with threshold 0 and \<open>kmerLen = 1\<close> they are not shorter than 2, and the envelope is that
  of the sparse seeding.
\<close>

theorem C6_initSparse_full_witness:
  "(\<exists>e. initSparse (\<lambda>k w. True) (\<lambda>k w a. 0) [0, 1, 2] (exampleEnvelope ''ACG'' ''ACG'')
          \<lparr>kmerLen = 2, alphabet = ''ACGT'', kmerLocations = Map.empty\<rparr> 2 1 8 0 = Inr e \<and>
        diagonals e = [- 2, - 1, 0, 1, 2] \<and> storageDiagonals e = [- 3, - 2, - 1, 0, 1, 2, 3]) \<and>
   (\<exists>e. initSparse (\<lambda>k w. True) (\<lambda>k w a. 0) [0, 1, 2] (exampleEnvelope ''ACG'' ''ACG'')
          \<lparr>kmerLen = 2, alphabet = ''ACGT'', kmerLocations = Map.empty\<rparr> 2 (- 1) 8 1000 = Inr e \<and>
        diagonals e = [- 2, - 1, 0, 1, 2] \<and> storageDiagonals e = [- 3, - 2, - 1, 0, 1, 2, 3]) \<and>
   initSparse (\<lambda>k w. True) (\<lambda>k w a. 0) [0, 1, 2] (exampleEnvelope ''ACG'' ''ACG'')
          \<lparr>kmerLen = 1, alphabet = ''ACGT'', kmerLocations = Map.empty\<rparr> 2 0 8 1000 =
     sparseEnvelope (\<lambda>k w. True) (\<lambda>k w a. 0) [0, 1, 2] (exampleEnvelope ''ACG'' ''ACG'')
          \<lparr>kmerLen = 1, alphabet = ''ACGT'', kmerLocations = Map.empty\<rparr> 2 0 8 1000"
proof -
  let ?env = "exampleEnvelope ''ACG'' ''ACG''"
  let ?yk = "\<lparr>kmerLen = 2, alphabet = ''ACGT'', kmerLocations = Map.empty\<rparr>"
  have len: "xLen ?env = 3" "yLen ?env = 3" "length (seq (px ?env)) = 3" "length (seq (py ?env)) = 3"
    by (simp_all add: exampleEnvelope_def)
  have lst: "[1 - int (yLen ?env)..int (xLen ?env) - 1] = [- 2, - 1, 0, 1, 2]"
    "[- int (yLen ?env)..int (xLen ?env)] = [- 3, - 2, - 1, 0, 1, 2, 3]"
    by (simp_all add: len upto_rec1)
  have r1: "(0::int) \<le> 1 \<longrightarrow> 2 * (int (kmerLen ?yk) + 1) < 2 ^ 32" by simp
  have r2: "(1::int) < 0 \<longrightarrow> xLen ?env * yLen ?env < 2 ^ 32 \<and> xLen ?env * yLen ?env * 8 < 2 ^ 64"
    by simp
  have r3: "(0::int) \<le> - 1 \<longrightarrow> 2 * (int (kmerLen ?yk) + (- 1)) < 2 ^ 32" by simp
  have r4: "(- 1::int) < 0 \<longrightarrow> xLen ?env * yLen ?env < 2 ^ 32 \<and> xLen ?env * yLen ?env * 8 < 2 ^ 64"
    by (simp add: len)
  let ?yk1 = "\<lparr>kmerLen = 1, alphabet = ''ACGT'', kmerLocations = Map.empty\<rparr>"
  have r5: "(0::int) \<le> 0 \<longrightarrow> 2 * (int (kmerLen ?yk1) + 0) < 2 ^ 32" by simp
  have r6: "(0::int) < 0 \<longrightarrow> xLen ?env * yLen ?env < 2 ^ 32 \<and> xLen ?env * yLen ?env * 8 < 2 ^ 64"
    by simp
  note a = C6_initSparse_full [OF r1 r2, of "\<lambda>k w. True" "\<lambda>k w a. 0" "[0, 1, 2]" 2 0]
  note b = C6_initSparse_full [OF r3 r4, of "\<lambda>k w. True" "\<lambda>k w a. 0" "[0, 1, 2]" 2 1000]
  note c = C6_initSparse_full [OF r5 r6, of "\<lambda>k w. True" "\<lambda>k w a. 0" "[0, 1, 2]" 2 1000]
  from a have full: "\<exists>e. initFull ?env = Inr e \<and> diagonals e = [- 2, - 1, 0, 1, 2] \<and>
      storageDiagonals e = [- 3, - 2, - 1, 0, 1, 2, 3]"
    unfolding lst by (simp add: len)
  from a have e1: "initSparse (\<lambda>k w. True) (\<lambda>k w a. 0) [0, 1, 2] ?env ?yk 2 1 8 0 = initFull ?env"
    by (simp add: len)
  from b have e2: "initSparse (\<lambda>k w. True) (\<lambda>k w a. 0) [0, 1, 2] ?env ?yk 2 (- 1) 8 1000 = initFull ?env"
    by (simp add: len)
  from c have e3: "initSparse (\<lambda>k w. True) (\<lambda>k w a. 0) [0, 1, 2] ?env ?yk1 2 0 8 1000 =
      sparseEnvelope (\<lambda>k w. True) (\<lambda>k w a. 0) [0, 1, 2] ?env ?yk1 2 0 8 1000"
    by (simp add: len)
  from full e1 e2 e3 show ?thesis by simp
qed

text \<open>
  The claim as stated fails: with a configured threshold the memory test is not made.
  Two sequences of length 6, \<open>kmerLen = 2\<close>, \<open>kmerThreshold = 1\<close>: the full matrix takes 36
  bytes of a budget of 1000 and no sequence is shorter than \<open>2 * (2 + 1)\<close>, yet the envelope
  is the sparse one, here diagonal 0 alone, while the full one has eleven diagonals.
\<close>

theorem C6_initSparse_full_counterexample:
  "xLen (exampleEnvelope ''ACGTAC'' ''ACGTAC'') * yLen (exampleEnvelope ''ACGTAC'' ''ACGTAC'') * 1 < 1000 \<and>
   initSparse (\<lambda>k w. True) (\<lambda>k w a. 0) [0, 1, 2, 3, 0, 1] (exampleEnvelope ''ACGTAC'' ''ACGTAC'')
      \<lparr>kmerLen = 2, alphabet = ''ACGT'', kmerLocations = Map.empty\<rparr> 2 1 1 1000 =
     Inr ((exampleEnvelope ''ACGTAC'' ''ACGTAC'')
            \<lparr>diagonals := [0], storageDiagonals := [- 1, 0, 1],
             storageIndex := [- 1, - 1, - 1, - 1, - 1, 0, 1, 2, - 1, - 1, - 1, - 1, - 1],
             storageOffset := [1, 0, 0, 0, 0, 0, 0],
             storageSize := [2, 3, 3, 3, 3, 3, 2],
             cumulStorageSize := [0, 2, 5, 8, 11, 14, 17], totalStorageSize := 19\<rparr>) \<and>
   initSparse (\<lambda>k w. True) (\<lambda>k w a. 0) [0, 1, 2, 3, 0, 1] (exampleEnvelope ''ACGTAC'' ''ACGTAC'')
      \<lparr>kmerLen = 2, alphabet = ''ACGT'', kmerLocations = Map.empty\<rparr> 2 1 1 1000 \<noteq>
     initFull (exampleEnvelope ''ACGTAC'' ''ACGTAC'')"
  by code_simp

lemma diagKmerCount_ok:
  assumes "kmerLen yKmerIndex \<le> xLen env" and "xLen env \<le> length xTok"
  shows "\<exists>m. diagKmerCount kmerValid makeKmer xTok env yKmerIndex = Inr m"
proof -
  from assms have "\<forall>i \<in> set [0..<xLen env - kmerLen yKmerIndex + 1]. i + kmerLen yKmerIndex \<le> length xTok"
    by auto
  from kmerScan_ok [OF this, of kmerValid makeKmer "[]"] assms(1) show ?thesis
    by (auto simp: diagKmerCount_def)
qed

text \<open>
  Claim C7, as amended. In memory-bound mode with the sparse seeding in effect (the full
  matrix does not fit \<open>maxSize\<close>) and a first sequence of at least \<open>kmerLen\<close> residues, the
  k-mer scan completes and the bucket loop absorbs the buckets in the order of falling
  count for as long as the storage set it keeps (diagonal 0 and the bands of the absorbed
  seeds, each with its one-diagonal halo) stays below the budget: it absorbs the first
  \<open>k\<close> buckets, after each of which the size of that set times \<open>min(xLen,yLen) * cellSize\<close>
  is below \<open>maxSize\<close>, and either no bucket is left or the next one would bring that
  product to \<open>maxSize\<close> or above. The compute diagonals of the envelope are those the loop
  has then. When not even the first bucket fits (\<open>k = 0\<close>), the envelope still has the
  compute diagonal 0 and the storage diagonals \<open>-1, 0, +1\<close>, whatever \<open>maxSize\<close> is. The
  products are those the code computes, of type \<^verbatim>\<open>size_t\<close>.
\<close>

theorem C7_memory_bound:
  assumes "kmerThreshold < 0"
    and "int maxSize \<le> fullSize env cellSize"
    and "kmerLen yKmerIndex \<le> xLen env" and "xLen env \<le> length xTok"
  shows "\<exists>m k. diagKmerCount kmerValid makeKmer xTok env yKmerIndex = Inr m \<and>
           k \<le> length (bucketsDescending (countDistrib m)) \<and>
           sparseSeeds kmerValid makeKmer xTok env yKmerIndex bandSize kmerThreshold cellSize maxSize =
             Inr (absorbedAfter env (bandSize div 2) (bucketsDescending (countDistrib m)) k
                    (initialSeeds kmerThreshold)) \<and>
           (\<forall>i. 0 < i \<and> i \<le> k \<longrightarrow>
              testedSize env (bandSize div 2) (diagSize env cellSize) (bucketsDescending (countDistrib m)) i
                (initialSeeds kmerThreshold) < int maxSize) \<and>
           (k < length (bucketsDescending (countDistrib m)) \<longrightarrow>
              int maxSize \<le>
              testedSize env (bandSize div 2) (diagSize env cellSize) (bucketsDescending (countDistrib m))
                (Suc k) (initialSeeds kmerThreshold)) \<and>
           initSparse kmerValid makeKmer xTok env yKmerIndex bandSize kmerThreshold cellSize maxSize =
             initStorage (env\<lparr>diagonals :=
               diags (absorbedAfter env (bandSize div 2) (bucketsDescending (countDistrib m)) k
                        (initialSeeds kmerThreshold))\<rparr>) \<and>
           (k = 0 \<and> 0 < maxSize \<longrightarrow>
              (\<exists>e. initSparse kmerValid makeKmer xTok env yKmerIndex bandSize kmerThreshold cellSize maxSize
                      = Inr e \<and> diagonals e = [0] \<and> storageDiagonals e = [- 1, 0, 1]))"
proof -
  from diagKmerCount_ok [OF assms(3,4)] obtain m where
    m: "diagKmerCount kmerValid makeKmer xTok env yKmerIndex = Inr m" by blast
  let ?bs = "bucketsDescending (countDistrib m)"
  let ?init = "initialSeeds kmerThreshold"
  from absorbBuckets_prefix [OF assms(1), of ?bs env "bandSize div 2" "diagSize env cellSize" maxSize ?init]
  obtain k where k: "k \<le> length ?bs"
    and run: "absorbBuckets env (bandSize div 2) kmerThreshold (diagSize env cellSize) maxSize ?bs ?init =
        absorbedAfter env (bandSize div 2) ?bs k ?init"
    and below: "\<forall>i. 0 < i \<and> i \<le> k \<longrightarrow>
        testedSize env (bandSize div 2) (diagSize env cellSize) ?bs i ?init < int maxSize"
    and stop: "k < length ?bs \<longrightarrow>
        int maxSize \<le> testedSize env (bandSize div 2) (diagSize env cellSize) ?bs (Suc k) ?init"
    by blast
  let ?st = "absorbedAfter env (bandSize div 2) ?bs k ?init"
  have seeds: "sparseSeeds kmerValid makeKmer xTok env yKmerIndex bandSize kmerThreshold cellSize maxSize
      = Inr ?st"
    by (simp add: sparseSeeds_def m run)
  from assms(1,2) have sp: "initSparse kmerValid makeKmer xTok env yKmerIndex bandSize kmerThreshold
      cellSize maxSize = initStorage (env\<lparr>diagonals := diags ?st\<rparr>)"
    by (simp add: initSparse_def sparseEnvelope_def seeds)
  have none: "\<exists>e. initSparse kmerValid makeKmer xTok env yKmerIndex bandSize kmerThreshold cellSize maxSize
                      = Inr e \<and> diagonals e = [0] \<and> storageDiagonals e = [- 1, 0, 1]"
    if k0: "k = 0" and pos: "0 < maxSize"
  proof -
    from k0 assms(1) have d0: "diags ?st = [0]" by (simp add: absorbedAfter_0 initialSeeds_def)
    from pos assms(2) have "0 < fullSize env cellSize" by simp
    from fullSize_positive [OF this]
    have "\<forall>d \<in> set (diagonals (env\<lparr>diagonals := [0]\<rparr>)).
        - int (yLen (env\<lparr>diagonals := [0]\<rparr>)) < d \<and> d < int (xLen (env\<lparr>diagonals := [0]\<rparr>))"
      by simp
    from initStorage_ok [OF this] obtain e where e: "initStorage (env\<lparr>diagonals := [0]\<rparr>) = Inr e"
      by blast
    from initStorage_Inr [OF e] have "diagonals e = [0]" and "storageDiagonals e = [- 1, 0, 1]"
      by (simp_all add: haloDiagonals_zero)
    with sp d0 e show ?thesis by simp
  qed
  show ?thesis
    apply (rule exI [of _ m])
    apply (rule exI [of _ k])
    apply (intro conjI)
          apply (rule m)
         apply (rule k)
        apply (rule seeds)
       apply (rule below)
      apply (rule stop)
     apply (rule sp)
    using none apply blast
    done
qed

text \<open>
  The theorem at two sequences of length 6 with 8-byte cells and a budget of 200 bytes.
  Diagonal 3 has two shared 2-mers and diagonal \<open>-1\<close> one, which gives two buckets. The
  first is absorbed: the loop then keeps four storage diagonals, \<open>4 * 48 = 192 < 200\<close>. The
  second would bring them to six, \<open>288\<close>: the loop stops, and the envelope has the compute
  diagonals 0 and 3.
\<close>

theorem C7_memory_bound_witness:
  "let env = exampleEnvelope ''ACGTAC'' ''ACGTAC'';
       yk = \<lparr>kmerLen = 2, alphabet = ''ACGT'', kmerLocations = [7 \<mapsto> [0], 8 \<mapsto> [1]]\<rparr>;
       kv = (\<lambda>k w. True); mk = (\<lambda>k w a. if w = [3, 0] then 7 else if w = [0, 1] then 8 else 0);
       xTok = [0, 1, 2, 3, 0, 1];
       buckets = [(2, [3]), (1, [4294967295])]
   in (- 1 :: int) < 0 \<and> int 200 \<le> fullSize env 8 \<and> kmerLen yk \<le> xLen env \<and> xLen env \<le> length xTok \<and>
      diagKmerCount kv mk xTok env yk = Inr [(- 1, 1), (3, 2)] \<and>
      bucketsDescending (countDistrib [(- 1, 1), (3, 2)]) = buckets \<and>
      testedSize env 0 (diagSize env 8) buckets 1 (initialSeeds (- 1)) = 192 \<and>
      testedSize env 0 (diagSize env 8) buckets 2 (initialSeeds (- 1)) = 288 \<and>
      sparseSeeds kv mk xTok env yk 0 (- 1) 8 200 =
        Inr \<lparr>diags = [0, 3], storageDiags = [0, 2, 3, 4], nPastThreshold = 1, threshold = 2,
             foundThreshold = True\<rparr> \<and>
      (\<exists>e. initSparse kv mk xTok env yk 0 (- 1) 8 200 = Inr e \<and> diagonals e = [0, 3])"
proof -
  let ?env = "exampleEnvelope ''ACGTAC'' ''ACGTAC''"
  let ?yk = "\<lparr>kmerLen = 2, alphabet = ''ACGT'', kmerLocations = [7 \<mapsto> [0], 8 \<mapsto> [1::nat]]\<rparr>"
  let ?kv = "\<lambda>(k::nat) (w::int list). True"
  let ?mk = "\<lambda>(k::nat) (w::int list) (a::nat). if w = [3, 0] then 7 else if w = [0, 1] then 8 else (0::nat)"
  let ?xTok = "[0, 1, 2, 3, 0, 1 :: int]"
  let ?bs = "[(2::nat, [3::int]), (1, [4294967295])]"
  let ?init = "initialSeeds (- 1)"
  let ?st = "\<lparr>diags = [0, 3], storageDiags = [0, 2, 3, 4], nPastThreshold = 1, threshold = 2,
             foundThreshold = True\<rparr>"
  have h1: "(- 1 :: int) < 0" by simp
  have h2: "int 200 \<le> fullSize ?env 8" by code_simp
  have h3: "kmerLen ?yk \<le> xLen ?env" by (simp add: exampleEnvelope_def)
  have h4: "xLen ?env \<le> length ?xTok" by (simp add: exampleEnvelope_def)
  have m0: "diagKmerCount ?kv ?mk ?xTok ?env ?yk = Inr [(- 1, 1), (3, 2)]" by code_simp
  have b0: "bucketsDescending (countDistrib [(- 1, 1), (3, 2)]) = ?bs" by code_simp
  have t1: "testedSize ?env 0 (diagSize ?env 8) ?bs 1 ?init = 192" by code_simp
  have t2: "testedSize ?env 0 (diagSize ?env 8) ?bs 2 ?init = 288" by code_simp
  have a1: "absorbedAfter ?env 0 ?bs (Suc 0) ?init = ?st" by code_simp
  from C7_memory_bound [OF h1 h2 h3 h4, of ?kv ?mk 0]
  obtain m k where m: "diagKmerCount ?kv ?mk ?xTok ?env ?yk = Inr m"
    and k: "k \<le> length (bucketsDescending (countDistrib m))"
    and seeds: "sparseSeeds ?kv ?mk ?xTok ?env ?yk 0 (- 1) 8 200 =
        Inr (absorbedAfter ?env (0 div 2) (bucketsDescending (countDistrib m)) k ?init)"
    and below: "\<forall>i. 0 < i \<and> i \<le> k \<longrightarrow>
        testedSize ?env (0 div 2) (diagSize ?env 8) (bucketsDescending (countDistrib m)) i ?init < int 200"
    and stop: "k < length (bucketsDescending (countDistrib m)) \<longrightarrow>
        int 200 \<le> testedSize ?env (0 div 2) (diagSize ?env 8) (bucketsDescending (countDistrib m)) (Suc k) ?init"
    and sp: "initSparse ?kv ?mk ?xTok ?env ?yk 0 (- 1) 8 200 =
        initStorage (?env\<lparr>diagonals :=
          diags (absorbedAfter ?env (0 div 2) (bucketsDescending (countDistrib m)) k ?init)\<rparr>)"
    by blast
  from m m0 have mm: "m = [(- 1, 1), (3, 2)]" by simp
  have z: "(0::nat) div 2 = 0" by simp
  note k' = k [unfolded mm b0] and seeds' = seeds [unfolded mm b0 z]
    and below' = below [unfolded mm b0 z] and stop' = stop [unfolded mm b0 z]
    and sp' = sp [unfolded mm b0 z]
  have k1: "k = Suc 0"
  proof -
    from k' have "k = 0 \<or> k = Suc 0 \<or> k = 2" by auto
    moreover have "k \<noteq> 0"
    proof
      assume "k = 0"
      with stop' t1 show False by simp
    qed
    moreover have "k \<noteq> 2"
    proof
      assume "k = 2"
      with below' [rule_format, of 2] t2 show False by simp
    qed
    ultimately show ?thesis by blast
  qed
  from seeds' have s: "sparseSeeds ?kv ?mk ?xTok ?env ?yk 0 (- 1) 8 200 = Inr ?st"
    unfolding k1 a1 .
  from sp' have run: "initSparse ?kv ?mk ?xTok ?env ?yk 0 (- 1) 8 200 =
      initStorage (?env\<lparr>diagonals := [0, 3]\<rparr>)"
    unfolding k1 a1 by simp
  have "\<forall>d \<in> set (diagonals (?env\<lparr>diagonals := [0, 3]\<rparr>)).
      - int (yLen (?env\<lparr>diagonals := [0, 3]\<rparr>)) < d \<and> d < int (xLen (?env\<lparr>diagonals := [0, 3]\<rparr>))"
    by (simp add: exampleEnvelope_def)
  from initStorage_ok [OF this] obtain e where e: "initStorage (?env\<lparr>diagonals := [0, 3]\<rparr>) = Inr e"
    by blast
  from initStorage_Inr [OF e] have d: "diagonals e = [0, 3]" by simp
  from run e d have ex: "\<exists>e. initSparse ?kv ?mk ?xTok ?env ?yk 0 (- 1) 8 200 = Inr e \<and> diagonals e = [0, 3]"
    by simp
  from h1 h2 h3 h4 m0 b0 t1 t2 s ex show ?thesis unfolding Let_def by blast
qed

text \<open>
  The claim as stated fails: \<open>maxSize\<close> does not bound the envelope that is built. With
  sequences of length 3, 8-byte cells and a budget of 30 bytes no bucket fits, the envelope
  still has the storage diagonals \<open>-1, 0, +1\<close>, and \<open>3 * min(3,3) * 8 = 72\<close> is not below 30.
\<close>

theorem C7_memory_bound_counterexample:
  "initSparse (\<lambda>k w. True) (\<lambda>k w a. 0) [0, 1, 2] (exampleEnvelope ''ACG'' ''ACG'')
      \<lparr>kmerLen = 2, alphabet = ''ACGT'', kmerLocations = Map.empty\<rparr> 2 (- 1) 8 30 =
     Inr ((exampleEnvelope ''ACG'' ''ACG'')
            \<lparr>diagonals := [0], storageDiagonals := [- 1, 0, 1],
             storageIndex := [- 1, - 1, 0, 1, 2, - 1, - 1],
             storageOffset := [1, 0, 0, 0],
             storageSize := [2, 3, 3, 2],
             cumulStorageSize := [0, 2, 5, 8], totalStorageSize := 10\<rparr>) \<and>
   \<not> length [- 1, 0, 1 :: int] * min (xLen (exampleEnvelope ''ACG'' ''ACG'')) (yLen (exampleEnvelope ''ACG'' ''ACG'')) * 8 < 30"
  by code_simp

text \<open>
  The fallback of the memory-bound mode: when the scan completes and not even the first
  bucket fits a positive budget, the envelope is the minimal one.
\<close>

lemma initSparse_minimal_fallback:
  assumes "kmerThreshold < 0" and "0 < maxSize"
    and "int maxSize \<le> fullSize env cellSize"
    and "sparseSeeds kmerValid makeKmer xTok env yKmerIndex bandSize kmerThreshold cellSize maxSize = Inr st"
    and "\<not> foundThreshold st"
  shows "\<exists>e. initSparse kmerValid makeKmer xTok env yKmerIndex bandSize kmerThreshold cellSize maxSize
                = Inr e \<and> diagonals e = [0] \<and> storageDiagonals e = [- 1, 0, 1]"
proof -
  from assms(4) obtain m where
    st: "st = absorbBuckets env (bandSize div 2) kmerThreshold (diagSize env cellSize)
               maxSize (bucketsDescending (countDistrib m)) (initialSeeds kmerThreshold)"
    by (auto simp: sparseSeeds_def split: sum.splits)
  from absorbBuckets_nothing [OF assms(1)] assms(5) have "st = initialSeeds kmerThreshold"
    unfolding st by blast
  then have d0: "diags st = [0]" by (simp add: initialSeeds_def)
  from assms(2,3) have "0 < fullSize env cellSize" by simp
  from fullSize_positive [OF this]
  have "\<forall>d \<in> set (diagonals (env\<lparr>diagonals := [0]\<rparr>)).
      - int (yLen (env\<lparr>diagonals := [0]\<rparr>)) < d \<and> d < int (xLen (env\<lparr>diagonals := [0]\<rparr>))"
    by simp
  from initStorage_ok [OF this] obtain e where e: "initStorage (env\<lparr>diagonals := [0]\<rparr>) = Inr e"
    by blast
  from assms(1,3,4) d0 e have run:
    "initSparse kmerValid makeKmer xTok env yKmerIndex bandSize kmerThreshold cellSize maxSize = Inr e"
    by (simp add: initSparse_def sparseEnvelope_def)
  from initStorage_Inr [OF e] have "diagonals e = [0]" and "storageDiagonals e = [- 1, 0, 1]"
    by (simp_all add: haloDiagonals_zero)
  with run show ?thesis by blast
qed

text \<open>
  Claim C8. The fallback to the minimal envelope is reached only when the k-mer scan
  completes, and in memory-bound mode nothing keeps a first sequence shorter than
  \<open>kmerLen\<close> from the scan (with a configured threshold such a sequence gets the full
  envelope): the unsigned bound \<^verbatim>\<open>xLen - kmerLen\<close> of the scan wraps around, its first window
  leaves the tokens, and the initialisation fails instead of falling back.
\<close>

theorem C8_short_sequence_fails:
  assumes "kmerThreshold < 0"
    and "int maxSize \<le> fullSize env cellSize"
    and "xLen env < kmerLen yKmerIndex"
  shows "initSparse kmerValid makeKmer xTok env yKmerIndex bandSize kmerThreshold cellSize maxSize
           = Inl OutOfRange"
  using assms by (simp add: initSparse_def sparseEnvelope_def sparseSeeds_def diagKmerCount_def)

text \<open>
  The theorem at a first sequence of 3 residues with \<open>kmerLen = 5\<close>, a second sequence of 10
  residues, 8-byte cells and a budget of 100 bytes.
\<close>

theorem C8_short_sequence_fails_witness:
  "(- 1 :: int) < 0 \<and>
   int 100 \<le> fullSize (exampleEnvelope ''ACG'' ''ACGTACGTAC'') 8 \<and>
   xLen (exampleEnvelope ''ACG'' ''ACGTACGTAC'') <
     kmerLen \<lparr>kmerLen = 5, alphabet = ''ACGT'', kmerLocations = Map.empty\<rparr> \<and>
   initSparse (\<lambda>k w. True) (\<lambda>k w a. 0) [0, 1, 2] (exampleEnvelope ''ACG'' ''ACGTACGTAC'')
      \<lparr>kmerLen = 5, alphabet = ''ACGT'', kmerLocations = Map.empty\<rparr> 2 (- 1) 8 100 = Inl OutOfRange"
proof -
  let ?env = "exampleEnvelope ''ACG'' ''ACGTACGTAC''"
  let ?yk = "\<lparr>kmerLen = 5, alphabet = ''ACGT'', kmerLocations = Map.empty\<rparr>"
  have h1: "(- 1 :: int) < 0" by simp
  have h2: "int 100 \<le> fullSize ?env 8" by code_simp
  have h3: "xLen ?env < kmerLen ?yk" by (simp add: exampleEnvelope_def)
  from C8_short_sequence_fails [OF h1 h2 h3, of "\<lambda>k w. True" "\<lambda>k w a. 0" "[0, 1, 2]" 2] h1 h2 h3
  show ?thesis by blast
qed

section \<open>Properties of profiles\<close>

lemma bindE_Inr [simp]: "bindE (Inr x) f = f x"
  by (simp add: bindE_def)

lemma bindE_Inl [simp]: "bindE (Inl e) f = Inl e"
  by (simp add: bindE_def)

lemma bindE_eq_Inr: "bindE m f = Inr y \<longleftrightarrow> (\<exists>x. m = Inr x \<and> f x = Inr y)"
  by (cases m) simp_all

lemma foldE_append: "foldE f (xs @ ys) a = bindE (foldE f xs a) (foldE f ys)"
  by (induction xs arbitrary: a) (auto simp: bindE_def split: sum.splits)

lemma foldE_snoc: "foldE f (xs @ [x]) a = bindE (foldE f xs a) (\<lambda>b. f b x)"
  by (simp add: foldE_append bindE_def split: sum.splits)

lemma mapE_replicate: "f x = Inr y \<Longrightarrow> mapE f (replicate n x) = Inr (replicate n y)"
  by (induction n) simp_all

lemma observe_leaf:
  assumes "\<not> wild \<longrightarrow> tok < K"
  shows "observe wild tok (replicate K NegInf) =
           Inr (if wild then replicate K (LP 0) else (replicate K NegInf)[tok := LP 0])"
  using assms by (simp add: observe_def)

lemma leaf_start:
  "((replicate (length sq + 2) (newAbsorbingState cpts K))
       [0 := newState\<lparr>sname := ''START'', seqCoords := [rowIndex \<mapsto> 0]\<rparr>])
       [Suc (length sq) := newState\<lparr>sname := ''END'', seqCoords := [rowIndex \<mapsto> length sq]\<rparr>] =
   map (leafStateAt isWildcard rowIndex sq dsq cpts K 0) [0..<length sq + 2]"
  by (rule nth_equalityI)
     (auto simp: nth_list_update leafStateAt_def newState_def newAbsorbingState_def
           simp del: replicate.simps upt.simps)

lemma leaf_trans_start: "replicate n newTransition = map (leafTransAt 0) [0..<n]"
  by (rule nth_equalityI) (auto simp: leafTransAt_def simp del: replicate.simps upt.simps)

lemma leafStep_round:
  assumes len: "length dsq = length sq"
    and tok: "\<forall>p < length sq. \<not> isWildcard (sq ! p) \<longrightarrow> dsq ! p < K"
    and k: "k \<le> length sq"
  shows "leafStep isWildcard rowIndex sq dsq
           (map (leafStateAt isWildcard rowIndex sq dsq cpts K k) [0..<length sq + 2],
            map (leafTransAt k) [0..<length sq + 1]) k =
         Inr (map (leafStateAt isWildcard rowIndex sq dsq cpts K (Suc k)) [0..<length sq + 2],
              map (leafTransAt (Suc k)) [0..<length sq + 1])"
proof -
  let ?S = "leafStateAt isWildcard rowIndex sq dsq cpts K"
  have tr: "(map (leafTransAt k) [0..<length sq + 1])
              [k := (map (leafTransAt k) [0..<length sq + 1] ! k)\<lparr>src := k, dest := Suc k, lpTrans := LP 0\<rparr>]
            = map (leafTransAt (Suc k)) [0..<length sq + 1]"
    using k by (intro nth_equalityI)
      (auto simp: nth_list_update leafTransAt_def newTransition_def simp del: upt.simps)
  show ?thesis
  proof (cases "k = length sq")
    case True
    have st: "((map (?S k) [0..<length sq + 2])
                 [k := (?S k k)\<lparr>nullOut := nullOut (?S k k) @ [k]\<rparr>])
                 [Suc k := (?S k (Suc k))\<lparr>inTrans := inTrans (?S k (Suc k)) @ [k]\<rparr>]
              = map (?S (Suc k)) [0..<length sq + 2]"
      using True by (intro nth_equalityI)
        (auto simp: nth_list_update leafStateAt_def simp del: upt.simps)
    from True len tr st show ?thesis
      by (simp add: leafStep_def Let_def del: upt.simps)
  next
    case False
    with k have lt: "k < length sq" by simp
    from tok lt have ok: "\<not> isWildcard (sq ! k) \<longrightarrow> dsq ! k < K" by simp
    have obs: "mapE (observe (isWildcard (sq ! k)) (dsq ! k)) (replicate cpts (replicate K NegInf)) =
        Inr (replicate cpts (leafEmission isWildcard K sq dsq k))"
      by (rule mapE_replicate) (simp add: observe_leaf [OF ok] leafEmission_def)
    have st: "(((map (?S k) [0..<length sq + 2])
                 [k := (?S k k)\<lparr>absorbOut := absorbOut (?S k k) @ [k]\<rparr>])
                 [Suc k := (?S k (Suc k))\<lparr>inTrans := inTrans (?S k (Suc k)) @ [k]\<rparr>])
                 [Suc k := ((?S k (Suc k))\<lparr>inTrans := inTrans (?S k (Suc k)) @ [k]\<rparr>)
                     \<lparr>sname := sq ! k # to_string (Suc k),
                      alignPath := (alignPath ((?S k (Suc k))\<lparr>inTrans := inTrans (?S k (Suc k)) @ [k]\<rparr>))
                        (rowIndex \<mapsto> (case alignPath ((?S k (Suc k))\<lparr>inTrans := inTrans (?S k (Suc k)) @ [k]\<rparr>) rowIndex of
                                       None \<Rightarrow> [] | Some p \<Rightarrow> p) @ [True]),
                      seqCoords := (seqCoords ((?S k (Suc k))\<lparr>inTrans := inTrans (?S k (Suc k)) @ [k]\<rparr>))
                        (rowIndex \<mapsto> Suc k),
                      lpAbsorb := replicate cpts (leafEmission isWildcard K sq dsq k)\<rparr>]
              = map (?S (Suc k)) [0..<length sq + 2]"
      using lt by (intro nth_equalityI)
        (auto simp: nth_list_update leafStateAt_def simp del: upt.simps)
    have lp: "lpAbsorb (?S k (Suc k)) = replicate cpts (replicate K NegInf)"
      using lt by (simp add: leafStateAt_def)
    from lt len tr st obs lp show ?thesis
      by (simp add: leafStep_def Let_def del: upt.simps)
  qed
qed

lemma leaf_rounds:
  assumes len: "length dsq = length sq"
    and tok: "\<forall>p < length sq. \<not> isWildcard (sq ! p) \<longrightarrow> dsq ! p < K"
  shows "k \<le> length sq + 1 \<Longrightarrow>
         foldE (leafStep isWildcard rowIndex sq dsq) [0..<k]
           (map (leafStateAt isWildcard rowIndex sq dsq cpts K 0) [0..<length sq + 2],
            map (leafTransAt 0) [0..<length sq + 1]) =
         Inr (map (leafStateAt isWildcard rowIndex sq dsq cpts K k) [0..<length sq + 2],
              map (leafTransAt k) [0..<length sq + 1])"
proof (induction k)
  case 0
  then show ?case by simp
next
  case (Suc k)
  then have k: "k \<le> length sq" by simp
  with Suc.IH have ih: "foldE (leafStep isWildcard rowIndex sq dsq) [0..<k]
           (map (leafStateAt isWildcard rowIndex sq dsq cpts K 0) [0..<length sq + 2],
            map (leafTransAt 0) [0..<length sq + 1]) =
         Inr (map (leafStateAt isWildcard rowIndex sq dsq cpts K k) [0..<length sq + 2],
              map (leafTransAt k) [0..<length sq + 1])" by simp
  show ?case
    by (simp only: upt_Suc_append [OF le0] foldE_snoc ih bindE_Inr leafStep_round [OF len tok k])
qed

lemma assertTransitions_None:
  "assertTransitions sts ts = None \<longleftrightarrow>
   (\<forall>t \<in> set ts. src t < length sts \<and> dest t < length sts \<and>
      coordsConsistent (seqCoords (sts ! src t)) (seqCoords (sts ! dest t)) (tpath t)
        (alignPath (sts ! dest t)))"
  by (induction ts) auto

lemma leafStateAt_waitReady:
  "isReady (leafStateAt isWildcard rowIndex sq dsq cpts K k i) \<or>
   isWait (leafStateAt isWildcard rowIndex sq dsq cpts K k i)"
  by (simp add: leafStateAt_def isReady_def isWait_def)

lemma leafStateAt_coords:
  "seqCoords (leafStateAt isWildcard rowIndex sq dsq cpts K (Suc (length sq)) i) =
     (if i \<le> Suc (length sq) then [rowIndex \<mapsto> min i (length sq)] else Map.empty)"
  by (auto simp: leafStateAt_def min_def)

lemma leafStateAt_path:
  "alignPath (leafStateAt isWildcard rowIndex sq dsq cpts K (Suc (length sq)) i) =
     (if 0 < i \<and> i \<le> length sq then [rowIndex \<mapsto> [True]] else Map.empty)"
  by (auto simp: leafStateAt_def)

lemma leaf_transition_consistent:
  assumes "p \<le> length sq"
  shows "coordsConsistent
           (seqCoords (leafStateAt isWildcard rowIndex sq dsq cpts K (Suc (length sq)) p))
           (seqCoords (leafStateAt isWildcard rowIndex sq dsq cpts K (Suc (length sq)) (Suc p)))
           Map.empty
           (alignPath (leafStateAt isWildcard rowIndex sq dsq cpts K (Suc (length sq)) (Suc p)))"
  using assms
  by (simp add: leafStateAt_coords leafStateAt_path coordsConsistent_def addPath_def
        alignPathResiduesInRow_def min_def)

lemma leafResult_state_nth:
  "i < length (seq sq) + 2 \<Longrightarrow>
   state (leafResult isWildcard dsq cpts alph sq rowIndex) ! i =
     leafStateAt isWildcard rowIndex (seq sq) dsq cpts (length alph) (length (seq sq) + 1) i"
  by (simp add: leafResult_def del: upt.simps)

lemma leafResult_trans_nth:
  "p < length (seq sq) + 1 \<Longrightarrow>
   ptrans (leafResult isWildcard dsq cpts alph sq rowIndex) ! p =
     \<lparr>src = p, dest = Suc p, lpTrans = LP 0, tpath = Map.empty\<rparr>"
  by (simp add: leafResult_def leafTransAt_def del: upt.simps)

lemma leafResult_lengths:
  "length (state (leafResult isWildcard dsq cpts alph sq rowIndex)) = length (seq sq) + 2"
  "length (ptrans (leafResult isWildcard dsq cpts alph sq rowIndex)) = length (seq sq) + 1"
  by (simp_all add: leafResult_def del: upt.simps)

lemma leafResult_coords:
  "assertSeqCoordsConsistent (leafResult isWildcard dsq cpts alph sq rowIndex) = None"
proof -
  let ?P = "leafResult isWildcard dsq cpts alph sq rowIndex"
  have "src t < length (state ?P) \<and> dest t < length (state ?P) \<and>
      coordsConsistent (seqCoords (state ?P ! src t)) (seqCoords (state ?P ! dest t)) (tpath t)
        (alignPath (state ?P ! dest t))" if "t \<in> set (ptrans ?P)" for t
  proof -
    from that obtain p where p: "p < length (seq sq) + 1" and t: "t = ptrans ?P ! p"
      by (auto simp: in_set_conv_nth leafResult_lengths)
    from p have t': "t = \<lparr>src = p, dest = Suc p, lpTrans = LP 0, tpath = Map.empty\<rparr>"
      by (simp add: t leafResult_trans_nth)
    from p have "p \<le> length (seq sq)" by simp
    from leaf_transition_consistent [OF this, of isWildcard rowIndex dsq cpts "length alph"] p
    show ?thesis
      by (simp add: t' leafResult_lengths leafResult_state_nth)
  qed
  then show ?thesis
    unfolding assertSeqCoordsConsistent_def assertTransitions_None by blast
qed

lemma leafResult_waitReady:
  "assertAllStatesWaitOrReady (leafResult isWildcard dsq cpts alph sq rowIndex) = None"
proof -
  have "list_all (\<lambda>s. isReady s \<or> isWait s) (state (leafResult isWildcard dsq cpts alph sq rowIndex))"
    unfolding list_all_iff leafResult_def
    by (auto simp: leafStateAt_waitReady simp del: upt.simps)
  then show ?thesis by (simp add: assertAllStatesWaitOrReady_def)
qed

lemma leafProfile_result:
  assumes len: "length dsq = length (seq sq)"
    and tok: "\<forall>p < length (seq sq). \<not> isWildcard (seq sq ! p) \<longrightarrow> dsq ! p < length alph"
  shows "leafProfile isWildcard dsq cpts alph sq rowIndex =
           Inr (leafResult isWildcard dsq cpts alph sq rowIndex)"
proof -
  have le: "length (seq sq) + 1 \<le> length (seq sq) + 1" by simp
  note run = leaf_rounds [OF len tok le, of rowIndex cpts]
  have P: "\<lparr>pname = name sq, pmeta = Map.empty, components = cpts, alphSize = length alph,
      state = map (leafStateAt isWildcard rowIndex (seq sq) dsq cpts (length alph) (length (seq sq) + 1))
                [0..<length (seq sq) + 2],
      ptrans = map (leafTransAt (length (seq sq) + 1)) [0..<length (seq sq) + 1],
      equivAbsorbState = [], pseq = [rowIndex \<mapsto> seq sq]\<rparr> =
      leafResult isWildcard dsq cpts alph sq rowIndex"
    by (simp add: leafResult_def)
  show ?thesis
    unfolding leafProfile_def Let_def leaf_start [of "seq sq" cpts "length alph" rowIndex isWildcard dsq]
      leaf_trans_start len run bindE_Inr prod.case P leafResult_coords leafResult_waitReady
    by simp
qed

text \<open>
  Claim C2. For a sequence of length \<open>L\<close> whose tokens lie in the alphabet, the leaf
  constructor returns a chain of \<open>L + 2\<close> states (START, \<open>s\<^sub>1 .. s\<^sub>L\<close>, END) and \<open>L + 1\<close>
  transitions, transition \<open>p\<close> leading from state \<open>p\<close> to state \<open>p + 1\<close> with \<open>lpTrans = 0\<close>
  and an empty path. START and END are null states. Every \<open>s\<^sub>i\<close> has an emission table of
  \<open>components\<close> rows with 0 at the token of position \<open>i\<close> and minus infinity at every other
  token, or 0 at every token when the residue is a wildcard; it is entered by an absorbing
  transition and carries the one-column path of the leaf's row. The last state before END
  leaves by a null transition. The coordinates of the leaf's row are \<open>0, 1, .., L\<close> from
  START to \<open>s\<^sub>L\<close>, and \<open>L\<close> at END.
\<close>

theorem C2_leaf_profile:
  assumes "length dsq = length (seq sq)"
    and "\<forall>p < length (seq sq). \<not> isWildcard (seq sq ! p) \<longrightarrow> dsq ! p < length alph"
  shows "\<exists>P. leafProfile isWildcard dsq cpts alph sq rowIndex = Inr P \<and>
     length (state P) = length (seq sq) + 2 \<and>
     length (ptrans P) = length (seq sq) + 1 \<and>
     (\<forall>p \<le> length (seq sq).
        ptrans P ! p = \<lparr>src = p, dest = Suc p, lpTrans = LP 0, tpath = Map.empty\<rparr>) \<and>
     sname (state P ! 0) = ''START'' \<and> isNull (state P ! 0) \<and>
     sname (state P ! Suc (length (seq sq))) = ''END'' \<and> isNull (state P ! Suc (length (seq sq))) \<and>
     (\<forall>i. 0 < i \<and> i \<le> length (seq sq) \<longrightarrow>
        (0 < cpts \<longrightarrow> \<not> isNull (state P ! i)) \<and>
        length (lpAbsorb (state P ! i)) = cpts \<and>
        (\<forall>cpt < cpts. length (lpAbsorb (state P ! i) ! cpt) = length alph \<and>
           (\<forall>c < length alph. lpAbsorb (state P ! i) ! cpt ! c =
              (if isWildcard (seq sq ! (i - 1)) \<or> c = dsq ! (i - 1) then LP 0 else NegInf))) \<and>
        alignPath (state P ! i) = [rowIndex \<mapsto> [True]] \<and>
        inTrans (state P ! i) = [i - 1]) \<and>
     (\<forall>i < length (seq sq). absorbOut (state P ! i) = [i] \<and> nullOut (state P ! i) = []) \<and>
     absorbOut (state P ! length (seq sq)) = [] \<and>
     nullOut (state P ! length (seq sq)) = [length (seq sq)] \<and>
     absorbOut (state P ! Suc (length (seq sq))) = [] \<and>
     nullOut (state P ! Suc (length (seq sq))) = [] \<and>
     (\<forall>i \<le> length (seq sq). seqCoords (state P ! i) rowIndex = Some i) \<and>
     seqCoords (state P ! Suc (length (seq sq))) rowIndex = Some (length (seq sq))"
proof -
  let ?P = "leafResult isWildcard dsq cpts alph sq rowIndex"
  let ?L = "length (seq sq)"
  let ?K = "length alph"
  let ?S = "leafStateAt isWildcard rowIndex (seq sq) dsq cpts ?K (Suc ?L)"
  have st: "state ?P ! i = ?S i" if "i \<le> Suc ?L" for i
    using that leafResult_state_nth [of i sq isWildcard dsq cpts alph rowIndex] by simp
  have run: "leafProfile isWildcard dsq cpts alph sq rowIndex = Inr ?P"
    by (rule leafProfile_result [OF assms])
  have c1: "length (state ?P) = ?L + 2" and c2: "length (ptrans ?P) = ?L + 1"
    by (simp_all add: leafResult_lengths)
  have c3: "\<forall>p \<le> ?L. ptrans ?P ! p = \<lparr>src = p, dest = Suc p, lpTrans = LP 0, tpath = Map.empty\<rparr>"
    by (simp add: leafResult_trans_nth)
  have c4: "sname (state ?P ! 0) = ''START'' \<and> isNull (state ?P ! 0)"
    by (simp add: st leafStateAt_def isNull_def)
  have c5: "sname (state ?P ! Suc ?L) = ''END'' \<and> isNull (state ?P ! Suc ?L)"
    by (simp add: st leafStateAt_def isNull_def)
  have c6: "\<forall>i. 0 < i \<and> i \<le> ?L \<longrightarrow>
        (0 < cpts \<longrightarrow> \<not> isNull (state ?P ! i)) \<and>
        length (lpAbsorb (state ?P ! i)) = cpts \<and>
        (\<forall>cpt < cpts. length (lpAbsorb (state ?P ! i) ! cpt) = ?K \<and>
           (\<forall>c < ?K. lpAbsorb (state ?P ! i) ! cpt ! c =
              (if isWildcard (seq sq ! (i - 1)) \<or> c = dsq ! (i - 1) then LP 0 else NegInf))) \<and>
        alignPath (state ?P ! i) = [rowIndex \<mapsto> [True]] \<and>
        inTrans (state ?P ! i) = [i - 1]"
  proof (intro allI impI)
    fix i assume i: "0 < i \<and> i \<le> ?L"
    then have lp: "lpAbsorb (?S i) = replicate cpts (leafEmission isWildcard ?K (seq sq) dsq (i - 1))"
      by (simp add: leafStateAt_def)
    have em: "length (leafEmission isWildcard ?K (seq sq) dsq (i - 1)) = ?K"
      by (simp add: leafEmission_def)
    have ev: "leafEmission isWildcard ?K (seq sq) dsq (i - 1) ! c =
        (if isWildcard (seq sq ! (i - 1)) \<or> c = dsq ! (i - 1) then LP 0 else NegInf)"
      if "c < ?K" for c
      using that by (auto simp: leafEmission_def nth_list_update)
    from i have rest: "alignPath (?S i) = [rowIndex \<mapsto> [True]] \<and> inTrans (?S i) = [i - 1]"
      by (simp add: leafStateAt_def)
    from i have sti: "state ?P ! i = ?S i" by (simp add: st)
    show "(0 < cpts \<longrightarrow> \<not> isNull (state ?P ! i)) \<and>
        length (lpAbsorb (state ?P ! i)) = cpts \<and>
        (\<forall>cpt < cpts. length (lpAbsorb (state ?P ! i) ! cpt) = ?K \<and>
           (\<forall>c < ?K. lpAbsorb (state ?P ! i) ! cpt ! c =
              (if isWildcard (seq sq ! (i - 1)) \<or> c = dsq ! (i - 1) then LP 0 else NegInf))) \<and>
        alignPath (state ?P ! i) = [rowIndex \<mapsto> [True]] \<and>
        inTrans (state ?P ! i) = [i - 1]"
      unfolding sti using lp em ev rest by (simp add: isNull_def)
  qed
  have c7: "\<forall>i < ?L. absorbOut (state ?P ! i) = [i] \<and> nullOut (state ?P ! i) = []"
    by (simp add: st leafStateAt_def)
  have c8: "absorbOut (state ?P ! ?L) = [] \<and> nullOut (state ?P ! ?L) = [?L]"
    by (simp add: st leafStateAt_def)
  have c9: "absorbOut (state ?P ! Suc ?L) = [] \<and> nullOut (state ?P ! Suc ?L) = []"
    by (simp add: st leafStateAt_def)
  have c10: "\<forall>i \<le> ?L. seqCoords (state ?P ! i) rowIndex = Some i"
    by (simp add: st leafStateAt_coords)
  have c11: "seqCoords (state ?P ! Suc ?L) rowIndex = Some ?L"
    by (simp add: st leafStateAt_coords)
  show ?thesis
    apply (rule exI [of _ ?P])
    apply (intro conjI)
                    apply (rule run)
                   apply (rule c1)
                  apply (rule c2)
                 apply (rule c3)
                apply (rule c4 [THEN conjunct1])
               apply (rule c4 [THEN conjunct2])
              apply (rule c5 [THEN conjunct1])
             apply (rule c5 [THEN conjunct2])
            apply (rule c6)
           apply (rule c7)
          apply (rule c8 [THEN conjunct1])
         apply (rule c8 [THEN conjunct2])
        apply (rule c9 [THEN conjunct1])
       apply (rule c9 [THEN conjunct2])
     apply (rule c10)
    apply (rule c11)
    done
qed

text \<open>
  The theorem at the sequence \<open>A*G\<close> over \<open>ACGT\<close> with \<open>*\<close> the wildcard and one component:
  five states, and the emissions of the first two.
\<close>

theorem C2_leaf_profile_witness:
  "\<exists>P. leafProfile (\<lambda>c. c = CHR ''*'') [0, 0, 2] 1 ''ACGT'' \<lparr>name = ''leaf'', seq = ''A*G''\<rparr> 7 = Inr P \<and>
       length (state P) = 5 \<and> length (ptrans P) = 4 \<and>
       lpAbsorb (state P ! 1) ! 0 ! 0 = LP 0 \<and> lpAbsorb (state P ! 1) ! 0 ! 1 = NegInf \<and>
       lpAbsorb (state P ! 2) ! 0 ! 3 = LP 0 \<and>
       seqCoords (state P ! 3) 7 = Some 3 \<and> seqCoords (state P ! 4) 7 = Some 3"
proof -
  let ?sq = "\<lparr>name = ''leaf'', seq = ''A*G''\<rparr>"
  let ?w = "\<lambda>c. c = CHR ''*''"
  have h1: "length [0, 0, 2 :: nat] = length (seq ?sq)" by simp
  have h2: "\<forall>p < length (seq ?sq). \<not> ?w (seq ?sq ! p) \<longrightarrow> [0, 0, 2] ! p < length ''ACGT''"
    by (simp add: less_Suc_eq nth_Cons')
  show ?thesis
    using C2_leaf_profile [OF h1 h2, of 1 7]
    apply (elim exE conjE)
    subgoal for P
      apply (rule exI [of _ P])
      apply (simp add: eval_nat_numeral)
      done
    done
qed

subsection \<open>leftMultiply\<close>

lemma mapE_Inr:
  "mapE f xs = Inr ys \<Longrightarrow> length ys = length xs \<and> (\<forall>i < length xs. f (xs ! i) = Inr (ys ! i))"
proof (induction xs arbitrary: ys)
  case Nil
  then show ?case by simp
next
  case (Cons x xs)
  from Cons.prems obtain y ys' where y: "f x = Inr y" and ys': "mapE f xs = Inr ys'"
    and ys: "ys = y # ys'"
    by (auto simp: bindE_eq_Inr)
  from Cons.IH [OF ys'] y ys show ?case
    by (auto simp: nth_Cons')
qed

lemma mapE_map: "\<forall>x \<in> set xs. f x = Inr (g x) \<Longrightarrow> mapE f xs = Inr (map g xs)"
  by (induction xs) simp_all

lemma mapE_ok: "\<forall>x \<in> set xs. \<exists>y. f x = Inr y \<Longrightarrow> \<exists>ys. mapE f xs = Inr ys"
proof (induction xs)
  case Nil
  then show ?case by simp
next
  case (Cons x xs)
  then obtain y ys where "f x = Inr y" "mapE f xs = Inr ys" by auto
  then show ?case by simp
qed

lemma expOf_nonneg: "0 \<le> expOf x"
  by (cases x) simp_all

lemma expOf_logOf: "0 \<le> a \<Longrightarrow> expOf (logOf a) = a"
  by (simp add: logOf_def)

lemma logOf_expOf: "logOf (expOf x) = x"
  by (cases x) (simp_all add: logOf_def)

lemma expOf_lpPlus: "expOf (lpPlus a b) = expOf a * expOf b"
  by (cases a; cases b) (simp_all add: exp_add)

lemma expOf_log_sum_exp: "expOf (log_sum_exp a b) = expOf a + expOf b"
proof (cases a)
  case NegInf
  then show ?thesis by simp
next
  case (LP x)
  show ?thesis
  proof (cases b)
    case NegInf
    with LP show ?thesis by simp
  next
    case (LP y)
    have "0 < exp x + exp y" by (simp add: add_pos_pos)
    with \<open>a = LP x\<close> LP show ?thesis by simp
  qed
qed

text \<open>One step of the innermost loop adds one term of the sum.\<close>

lemma log_sum_exp_step:
  assumes "0 \<le> A" and "0 \<le> p"
  shows "log_sum_exp (logOf A) (lpPlus (logOf p) x) = logOf (A + p * expOf x)"
proof -
  have "expOf (log_sum_exp (logOf A) (lpPlus (logOf p) x)) = A + p * expOf x"
    using assms by (simp add: expOf_log_sum_exp expOf_lpPlus expOf_logOf)
  then have "logOf (expOf (log_sum_exp (logOf A) (lpPlus (logOf p) x))) = logOf (A + p * expOf x)"
    by simp
  then show ?thesis by (simp only: logOf_expOf)
qed

lemma guardedAt_Inr: "i < length xs \<Longrightarrow> guardedAt xs i = Inr (xs ! i)"
  by (simp add: guardedAt_def)

lemma gsl_matrix_get_Inr:
  "i < length m \<Longrightarrow> j < length (m ! i) \<Longrightarrow> gsl_matrix_get m i j = Inr (m ! i ! j)"
  by (simp add: gsl_matrix_get_def guardedAt_def)

lemma multiplyEntry_sum:
  assumes cpt: "cpt < length sub" and c: "c < length (sub ! cpt)"
    and cols: "K \<le> length (sub ! cpt ! c)"
    and nonneg: "\<forall>d < K. 0 \<le> sub ! cpt ! c ! d"
    and rows: "cpt < length (lpAbsorb s)" and row: "K \<le> length (lpAbsorb s ! cpt)"
  shows "multiplyEntry sub K s cpt c =
           Inr (logOf (\<Sum>d < K. sub ! cpt ! c ! d * expOf (lpAbsorb s ! cpt ! d)))"
proof -
  let ?f = "\<lambda>lp d.
              bindE (guardedAt sub cpt) (\<lambda>m.
              bindE (gsl_matrix_get m c d) (\<lambda>p.
              bindE (guardedAt (lpAbsorb s) cpt) (\<lambda>row.
              bindE (guardedAt row d) (\<lambda>x. Inr (log_sum_exp lp (lpPlus (logOf p) x))))))"
  let ?t = "\<lambda>d. sub ! cpt ! c ! d * expOf (lpAbsorb s ! cpt ! d)"
  have step: "?f lp d = Inr (log_sum_exp lp (lpPlus (logOf (sub ! cpt ! c ! d)) (lpAbsorb s ! cpt ! d)))"
    if "d < K" for lp d
    using that cpt c cols rows row
    by (simp add: guardedAt_Inr gsl_matrix_get_Inr)
  have "n \<le> K \<Longrightarrow> foldE ?f [0..<n] NegInf = Inr (logOf (\<Sum>d < n. ?t d))" for n
  proof (induction n)
    case 0
    then show ?case by (simp add: logOf_def)
  next
    case (Suc n)
    then have ih: "foldE ?f [0..<n] NegInf = Inr (logOf (\<Sum>d < n. ?t d))" and n: "n < K"
      by simp_all
    have pos: "0 \<le> (\<Sum>d < n. ?t d)"
      using n nonneg by (intro sum_nonneg mult_nonneg_nonneg expOf_nonneg) simp
    from n nonneg have p: "0 \<le> sub ! cpt ! c ! n" by simp
    show ?case
      by (simp only: upt_Suc_append [OF le0] foldE_snoc ih bindE_Inr step [OF n]
            log_sum_exp_step [OF pos p] sum.lessThan_Suc)
  qed
  from this [of K] show ?thesis by (simp add: multiplyEntry_def)
qed

lemma writeEntry_Inr:
  "cpt < length table \<Longrightarrow> c < length (table ! cpt) \<Longrightarrow>
   writeEntry table cpt c lp = Inr (table[cpt := (table ! cpt)[c := lp]])"
  by (simp add: writeEntry_def)

lemma multiply_row:
  assumes "cpt < length table" and "\<forall>c < K. E c = Inr (new c)"
  shows "n \<le> K \<Longrightarrow> n \<le> length (table ! cpt) \<Longrightarrow>
         \<exists>t'. foldE (\<lambda>t c. bindE (E c) (writeEntry t cpt c)) [0..<n] table = Inr t' \<and>
              length t' = length table \<and>
              (\<forall>j < length table. j \<noteq> cpt \<longrightarrow> t' ! j = table ! j) \<and>
              length (t' ! cpt) = length (table ! cpt) \<and>
              (\<forall>c < n. t' ! cpt ! c = new c) \<and>
              (\<forall>c. n \<le> c \<and> c < length (table ! cpt) \<longrightarrow> t' ! cpt ! c = table ! cpt ! c)"
proof (induction n)
  case 0
  then show ?case by simp
next
  case (Suc n)
  then obtain t' where
    run: "foldE (\<lambda>t c. bindE (E c) (writeEntry t cpt c)) [0..<n] table = Inr t'"
    and len: "length t' = length table"
    and other: "\<forall>j < length table. j \<noteq> cpt \<longrightarrow> t' ! j = table ! j"
    and rlen: "length (t' ! cpt) = length (table ! cpt)"
    and filled: "\<forall>c < n. t' ! cpt ! c = new c"
    and rest: "\<forall>c. n \<le> c \<and> c < length (table ! cpt) \<longrightarrow> t' ! cpt ! c = table ! cpt ! c"
    by auto
  from Suc.prems have n: "n < K" "n < length (table ! cpt)" by simp_all
  let ?t = "t'[cpt := (t' ! cpt)[n := new n]]"
  from n assms len rlen have w: "bindE (E n) (writeEntry t' cpt n) = Inr ?t"
    by (simp add: writeEntry_Inr)
  have r: "foldE (\<lambda>t c. bindE (E c) (writeEntry t cpt c)) [0..<Suc n] table = Inr ?t"
    by (simp only: upt_Suc_append [OF le0] foldE_snoc run bindE_Inr w)
  have a: "length ?t = length table" using len by simp
  have b: "\<forall>j < length table. j \<noteq> cpt \<longrightarrow> ?t ! j = table ! j" using other by simp
  have row: "?t ! cpt = (t' ! cpt)[n := new n]" using assms(1) len by simp
  have c: "length (?t ! cpt) = length (table ! cpt)" using row rlen by simp
  have d: "\<forall>c < Suc n. ?t ! cpt ! c = new c"
    using row filled n rlen by (auto simp: nth_list_update less_Suc_eq)
  have e: "\<forall>c. Suc n \<le> c \<and> c < length (table ! cpt) \<longrightarrow> ?t ! cpt ! c = table ! cpt ! c"
    using row rest by (auto simp: nth_list_update)
  from r a b c d e show ?case by blast
qed

lemma multiply_table:
  assumes ok: "\<forall>cpt < M. \<forall>c < K. E cpt c = Inr (new cpt c)"
    and wide: "\<forall>cpt < M. K \<le> length (table ! cpt)"
  shows "m \<le> M \<Longrightarrow> m \<le> length table \<Longrightarrow>
         \<exists>t'. foldE (\<lambda>t cpt. foldE (\<lambda>t' c. bindE (E cpt c) (writeEntry t' cpt c)) [0..<K] t)
                 [0..<m] table = Inr t' \<and>
              length t' = length table \<and>
              (\<forall>cpt < length table. length (t' ! cpt) = length (table ! cpt)) \<and>
              (\<forall>cpt < m. \<forall>c < K. t' ! cpt ! c = new cpt c) \<and>
              (\<forall>cpt < m. \<forall>c. K \<le> c \<and> c < length (table ! cpt) \<longrightarrow> t' ! cpt ! c = table ! cpt ! c) \<and>
              (\<forall>cpt. m \<le> cpt \<and> cpt < length table \<longrightarrow> t' ! cpt = table ! cpt)"
proof (induction m)
  case 0
  then show ?case by simp
next
  case (Suc m)
  let ?inner = "\<lambda>t cpt. foldE (\<lambda>t' c. bindE (E cpt c) (writeEntry t' cpt c)) [0..<K] t"
  from Suc obtain t1 where
    run: "foldE ?inner [0..<m] table = Inr t1"
    and len: "length t1 = length table"
    and rlen: "\<forall>cpt < length table. length (t1 ! cpt) = length (table ! cpt)"
    and filled: "\<forall>cpt < m. \<forall>c < K. t1 ! cpt ! c = new cpt c"
    and keep: "\<forall>cpt < m. \<forall>c. K \<le> c \<and> c < length (table ! cpt) \<longrightarrow> t1 ! cpt ! c = table ! cpt ! c"
    and rest: "\<forall>cpt. m \<le> cpt \<and> cpt < length table \<longrightarrow> t1 ! cpt = table ! cpt"
    by auto
  from Suc.prems have m: "m < M" "m < length table" by simp_all
  from m len have m1: "m < length t1" by simp
  from m ok have ok': "\<forall>c < K. E m c = Inr (new m c)" by simp
  from m wide rest have w: "K \<le> length (t1 ! m)" by simp
  from multiply_row [OF m1 ok', of K, OF le_refl w] obtain t2 where
    run2: "?inner t1 m = Inr t2"
    and len2: "length t2 = length t1"
    and other2: "\<forall>j < length t1. j \<noteq> m \<longrightarrow> t2 ! j = t1 ! j"
    and rlen2: "length (t2 ! m) = length (t1 ! m)"
    and filled2: "\<forall>c < K. t2 ! m ! c = new m c"
    and rest2: "\<forall>c. K \<le> c \<and> c < length (t1 ! m) \<longrightarrow> t2 ! m ! c = t1 ! m ! c"
    by blast
  have r: "foldE ?inner [0..<Suc m] table = Inr t2"
    by (simp only: upt_Suc_append [OF le0] foldE_snoc run bindE_Inr run2)
  have a: "length t2 = length table" using len len2 by simp
  have b: "\<forall>cpt < length table. length (t2 ! cpt) = length (table ! cpt)"
    using rlen rlen2 other2 len by (metis)
  have c: "\<forall>cpt < Suc m. \<forall>c < K. t2 ! cpt ! c = new cpt c"
  proof (intro allI impI)
    fix cpt c assume "cpt < Suc m" "c < K"
    then show "t2 ! cpt ! c = new cpt c"
      using filled filled2 other2 len m by (cases "cpt = m") auto
  qed
  have d: "\<forall>cpt < Suc m. \<forall>c. K \<le> c \<and> c < length (table ! cpt) \<longrightarrow> t2 ! cpt ! c = table ! cpt ! c"
  proof (intro allI impI)
    fix cpt c assume "cpt < Suc m" "K \<le> c \<and> c < length (table ! cpt)"
    then show "t2 ! cpt ! c = table ! cpt ! c"
      using keep rest rest2 other2 len m by (cases "cpt = m") auto
  qed
  have e: "\<forall>cpt. Suc m \<le> cpt \<and> cpt < length table \<longrightarrow> t2 ! cpt = table ! cpt"
    using rest other2 len by auto
  from r a b c d e show ?case by blast
qed

lemma multiplyState_result:
  assumes sub: "substitutionFits sub M K" and fit: "emissionsFit M K s"
  shows "\<exists>s'. multiplyState sub M K s = Inr s' \<and>
              s' = s\<lparr>lpAbsorb := lpAbsorb s'\<rparr> \<and>
              (isNull s \<longrightarrow> s' = s) \<and>
              (\<not> isNull s \<longrightarrow>
                 length (lpAbsorb s') = length (lpAbsorb s) \<and>
                 (\<forall>cpt < length (lpAbsorb s). length (lpAbsorb s' ! cpt) = length (lpAbsorb s ! cpt)) \<and>
                 (\<forall>cpt < M. \<forall>c < K. lpAbsorb s' ! cpt ! c = multipliedEmission sub K s cpt c))"
proof (cases "isNull s")
  case True
  then show ?thesis by (simp add: multiplyState_def)
next
  case False
  with fit have rows: "M \<le> length (lpAbsorb s)" and wide: "\<forall>cpt < M. K \<le> length (lpAbsorb s ! cpt)"
    by (simp_all add: emissionsFit_def)
  have ok: "\<forall>cpt < M. \<forall>c < K. multiplyEntry sub K s cpt c = Inr (multipliedEmission sub K s cpt c)"
  proof (intro allI impI)
    fix cpt c assume cpt: "cpt < M" and c: "c < K"
    from sub cpt c rows wide show "multiplyEntry sub K s cpt c = Inr (multipliedEmission sub K s cpt c)"
      unfolding multipliedEmission_def substitutionFits_def
      by (intro multiplyEntry_sum) auto
  qed
  from multiply_table [OF ok wide, of M, OF le_refl rows] obtain t' where
    run: "foldE (\<lambda>t cpt. foldE (\<lambda>t' c. bindE (multiplyEntry sub K s cpt c) (writeEntry t' cpt c))
                              [0..<K] t) [0..<M] (lpAbsorb s) = Inr t'"
    and len: "length t' = length (lpAbsorb s)"
    and rlen: "\<forall>cpt < length (lpAbsorb s). length (t' ! cpt) = length (lpAbsorb s ! cpt)"
    and new: "\<forall>cpt < M. \<forall>c < K. t' ! cpt ! c = multipliedEmission sub K s cpt c"
    by blast
  from False run have r: "multiplyState sub M K s = Inr (s\<lparr>lpAbsorb := t'\<rparr>)"
    by (simp add: multiplyState_def)
  show ?thesis
    using r False len rlen new by (intro exI [of _ "s\<lparr>lpAbsorb := t'\<rparr>"]) simp
qed

text \<open>
  Claim C4. For substitution matrices that cover the profile (one matrix of at least
  \<open>alphSize\<close> by \<open>alphSize\<close> entries, none negative, per component) and emission tables of
  at least \<open>components\<close> rows and \<open>alphSize\<close> columns, \<open>leftMultiply\<close> returns a profile
  that differs from the given one in its states only, has the same number of states, and
  whose state \<open>i\<close> is the given state \<open>i\<close> with another emission table: a null state is
  unchanged, and in an absorbing state the table has the same shape and, for every
  component and token \<open>c\<close>, the entry \<open>log (\<Sum>d. sub[cpt](c,d) * exp (lpAbsorb[cpt][d]))\<close>
  computed from the emissions of the given profile. Logarithms and sums are exact.
\<close>

theorem C4_leftMultiply:
  assumes "substitutionFits sub (components P) (alphSize P)"
    and "\<forall>s \<in> set (state P). emissionsFit (components P) (alphSize P) s"
  shows "\<exists>Q. leftMultiply sub P = Inr Q \<and>
             Q = P\<lparr>state := state Q\<rparr> \<and>
             length (state Q) = length (state P) \<and>
             (\<forall>i < length (state P).
                state Q ! i = (state P ! i)\<lparr>lpAbsorb := lpAbsorb (state Q ! i)\<rparr> \<and>
                (isNull (state P ! i) \<longrightarrow> state Q ! i = state P ! i) \<and>
                (\<not> isNull (state P ! i) \<longrightarrow>
                   length (lpAbsorb (state Q ! i)) = length (lpAbsorb (state P ! i)) \<and>
                   (\<forall>cpt < length (lpAbsorb (state P ! i)).
                      length (lpAbsorb (state Q ! i) ! cpt) = length (lpAbsorb (state P ! i) ! cpt)) \<and>
                   (\<forall>cpt < components P. \<forall>c < alphSize P.
                      lpAbsorb (state Q ! i) ! cpt ! c =
                        multipliedEmission sub (alphSize P) (state P ! i) cpt c)))"
proof -
  let ?f = "multiplyState sub (components P) (alphSize P)"
  have "\<forall>s \<in> set (state P). \<exists>s'. ?f s = Inr s'"
    using multiplyState_result [OF assms(1)] assms(2) by blast
  from mapE_ok [OF this] obtain sts where run: "mapE ?f (state P) = Inr sts" by blast
  from mapE_Inr [OF run] have len: "length sts = length (state P)"
    and each: "\<forall>i < length (state P). ?f (state P ! i) = Inr (sts ! i)" by simp_all
  have r: "leftMultiply sub P = Inr (P\<lparr>state := sts\<rparr>)"
    by (simp add: leftMultiply_def run)
  have st: "state Q' ! i = (state P ! i)\<lparr>lpAbsorb := lpAbsorb (state Q' ! i)\<rparr> \<and>
                (isNull (state P ! i) \<longrightarrow> state Q' ! i = state P ! i) \<and>
                (\<not> isNull (state P ! i) \<longrightarrow>
                   length (lpAbsorb (state Q' ! i)) = length (lpAbsorb (state P ! i)) \<and>
                   (\<forall>cpt < length (lpAbsorb (state P ! i)).
                      length (lpAbsorb (state Q' ! i) ! cpt) = length (lpAbsorb (state P ! i) ! cpt)) \<and>
                   (\<forall>cpt < components P. \<forall>c < alphSize P.
                      lpAbsorb (state Q' ! i) ! cpt ! c =
                        multipliedEmission sub (alphSize P) (state P ! i) cpt c))"
    if i: "i < length (state P)" and Q': "Q' = P\<lparr>state := sts\<rparr>" for i Q'
  proof -
    from i have "state P ! i \<in> set (state P)" by simp
    with assms(2) have fit: "emissionsFit (components P) (alphSize P) (state P ! i)" by blast
    from multiplyState_result [OF assms(1) fit] each i show ?thesis
      unfolding Q' by auto
  qed
  show ?thesis
    apply (rule exI [of _ "P\<lparr>state := sts\<rparr>"])
    apply (intro conjI)
       apply (rule r)
      apply simp
     apply (simp add: len)
    apply (intro allI impI)
    apply (rule st)
     apply assumption
    apply (rule refl)
    done
qed

text \<open>
  The theorem at a chain START, \<open>s\<^sub>1\<close>, END over two tokens, where \<open>s\<^sub>1\<close> has seen token 0, and
  the matrix with rows \<open>(9/10, 1/10)\<close> and \<open>(1/5, 4/5)\<close>: the emissions become \<open>log (9/10)\<close>
  and \<open>log (1/5)\<close>, the transitions stay.
\<close>

theorem C4_leftMultiply_witness:
  "let s1 = newState\<lparr>sname := ''A1'', inTrans := [0], nullOut := [1],
                    lpAbsorb := [[LP 0, NegInf]], alignPath := [3 \<mapsto> [True]], seqCoords := [3 \<mapsto> 1]\<rparr>;
       P = \<lparr>pname = ''leaf'', pmeta = Map.empty, components = 1, alphSize = 2,
            state = [newState\<lparr>sname := ''START'', absorbOut := [0], seqCoords := [3 \<mapsto> 0]\<rparr>, s1,
                     newState\<lparr>sname := ''END'', inTrans := [1], seqCoords := [3 \<mapsto> 1]\<rparr>],
            ptrans = [\<lparr>src = 0, dest = 1, lpTrans = LP 0, tpath = Map.empty\<rparr>,
                      \<lparr>src = 1, dest = 2, lpTrans = LP 0, tpath = Map.empty\<rparr>],
            equivAbsorbState = [], pseq = [3 \<mapsto> ''A'']\<rparr>;
       sub = [[[9 / 10, 1 / 10], [1 / 5, 4 / 5]]]
   in substitutionFits sub (components P) (alphSize P) \<and>
      list_all (emissionsFit (components P) (alphSize P)) (state P) \<and>
      (\<exists>Q. leftMultiply sub P = Inr Q \<and> ptrans Q = ptrans P \<and>
           state Q ! 0 = state P ! 0 \<and>
           state Q ! 1 = s1\<lparr>lpAbsorb := [[LP (ln (9 / 10)), LP (ln (1 / 5))]]\<rparr>)"
proof -
  let ?s1 = "newState\<lparr>sname := ''A1'', inTrans := [0], nullOut := [1],
                    lpAbsorb := [[LP 0, NegInf]], alignPath := [3 \<mapsto> [True]], seqCoords := [3 \<mapsto> 1]\<rparr>"
  let ?P = "\<lparr>pname = ''leaf'', pmeta = Map.empty, components = 1, alphSize = 2,
            state = [newState\<lparr>sname := ''START'', absorbOut := [0], seqCoords := [3 \<mapsto> 0]\<rparr>, ?s1,
                     newState\<lparr>sname := ''END'', inTrans := [1], seqCoords := [3 \<mapsto> 1]\<rparr>],
            ptrans = [\<lparr>src = 0, dest = 1, lpTrans = LP 0, tpath = Map.empty\<rparr>,
                      \<lparr>src = 1, dest = 2, lpTrans = LP 0, tpath = Map.empty\<rparr>],
            equivAbsorbState = [], pseq = [3 \<mapsto> ''A'']\<rparr>"
  let ?sub = "[[[9 / 10, 1 / 10], [1 / 5, 4 / 5 :: real]]]"
  have h1: "substitutionFits ?sub (components ?P) (alphSize ?P)"
    by (simp add: substitutionFits_def less_Suc_eq eval_nat_numeral nth_Cons')
  have h2: "\<forall>s \<in> set (state ?P). emissionsFit (components ?P) (alphSize ?P) s"
    by (simp add: emissionsFit_def isNull_def newState_def)
  have e0: "multipliedEmission ?sub 2 ?s1 0 0 = LP (ln (9 / 10))"
    by (simp add: multipliedEmission_def eval_nat_numeral logOf_def)
  have e1: "multipliedEmission ?sub 2 ?s1 0 1 = LP (ln (1 / 5))"
    by (simp add: multipliedEmission_def eval_nat_numeral logOf_def)
  from C4_leftMultiply [OF h1 h2] obtain Q where
    run: "leftMultiply ?sub ?P = Inr Q" and frame: "Q = ?P\<lparr>state := state Q\<rparr>"
    and sts: "\<forall>i < length (state ?P).
                state Q ! i = (state ?P ! i)\<lparr>lpAbsorb := lpAbsorb (state Q ! i)\<rparr> \<and>
                (isNull (state ?P ! i) \<longrightarrow> state Q ! i = state ?P ! i) \<and>
                (\<not> isNull (state ?P ! i) \<longrightarrow>
                   length (lpAbsorb (state Q ! i)) = length (lpAbsorb (state ?P ! i)) \<and>
                   (\<forall>cpt < length (lpAbsorb (state ?P ! i)).
                      length (lpAbsorb (state Q ! i) ! cpt) = length (lpAbsorb (state ?P ! i) ! cpt)) \<and>
                   (\<forall>cpt < components ?P. \<forall>c < alphSize ?P.
                      lpAbsorb (state Q ! i) ! cpt ! c =
                        multipliedEmission ?sub (alphSize ?P) (state ?P ! i) cpt c))"
    by (elim exE conjE)
  have tr: "ptrans Q = ptrans ?P" by (subst frame) simp
  have n0: "0 < length (state ?P)" and n1: "1 < length (state ?P)" by simp_all
  have p1: "state ?P ! 1 = ?s1" by simp
  have nul0: "isNull (state ?P ! 0)" by (simp add: isNull_def newState_def)
  have nul1: "\<not> isNull ?s1" by (simp add: isNull_def)
  have c0: "(0::nat) < components ?P" and k0: "(0::nat) < alphSize ?P" and k1: "(1::nat) < alphSize ?P"
    and r0: "0 < length (lpAbsorb ?s1)"
    by simp_all
  note at0 = sts [rule_format, OF n0]
  have s0: "state Q ! 0 = state ?P ! 0"
    by (rule at0 [THEN conjunct2, THEN conjunct1, THEN mp, OF nul0])
  note at1 = sts [rule_format, OF n1, unfolded p1]
  note abs1 = at1 [THEN conjunct2, THEN conjunct2, THEN mp, OF nul1]
  have one: "state Q ! 1 = ?s1\<lparr>lpAbsorb := lpAbsorb (state Q ! 1)\<rparr>"
    by (rule at1 [THEN conjunct1])
  have l1': "length (lpAbsorb (state Q ! 1)) = length (lpAbsorb ?s1)"
    by (rule abs1 [THEN conjunct1])
  have l2': "length (lpAbsorb (state Q ! 1) ! 0) = length (lpAbsorb ?s1 ! 0)"
    by (rule abs1 [THEN conjunct2, THEN conjunct1, rule_format, OF r0])
  have v0': "lpAbsorb (state Q ! 1) ! 0 ! 0 = multipliedEmission ?sub (alphSize ?P) ?s1 0 0"
    by (rule abs1 [THEN conjunct2, THEN conjunct2, rule_format, OF c0 k0])
  have v1': "lpAbsorb (state Q ! 1) ! 0 ! 1 = multipliedEmission ?sub (alphSize ?P) ?s1 0 1"
    by (rule abs1 [THEN conjunct2, THEN conjunct2, rule_format, OF c0 k1])
  from l1' have l1: "length (lpAbsorb (state Q ! 1)) = 1" by simp
  from l2' have l2: "length (lpAbsorb (state Q ! 1) ! 0) = 2" by simp
  from v0' have v0: "lpAbsorb (state Q ! 1) ! 0 ! 0 = multipliedEmission ?sub 2 ?s1 0 0" by simp
  from v1' have v1: "lpAbsorb (state Q ! 1) ! 0 ! 1 = multipliedEmission ?sub 2 ?s1 0 1" by simp
  have "lpAbsorb (state Q ! 1) ! 0 = [LP (ln (9 / 10)), LP (ln (1 / 5))]"
    using l2 v0 v1 e0 e1 by (intro nth_equalityI) (auto simp: less_Suc_eq eval_nat_numeral)
  with l1 have "lpAbsorb (state Q ! 1) = [[LP (ln (9 / 10)), LP (ln (1 / 5))]]"
    by (intro nth_equalityI) auto
  with one have s1: "state Q ! 1 = ?s1\<lparr>lpAbsorb := [[LP (ln (9 / 10)), LP (ln (1 / 5))]]\<rparr>"
    by simp
  have ex: "\<exists>Q. leftMultiply ?sub ?P = Inr Q \<and> ptrans Q = ptrans ?P \<and>
           state Q ! 0 = state ?P ! 0 \<and>
           state Q ! 1 = ?s1\<lparr>lpAbsorb := [[LP (ln (9 / 10)), LP (ln (1 / 5))]]\<rparr>"
    by (intro exI [of _ Q] conjI run tr s0 s1)
  from h2 have h2': "list_all (emissionsFit (components ?P) (alphSize ?P)) (state ?P)"
    by (simp only: list_all_iff)
  show ?thesis
    unfolding Let_def by (intro conjI h1 h2' ex)
qed

subsection \<open>addReadyStates: the first loop\<close>

lemma readyAfter_0:
  "readyAfter P 0 = \<lparr>old2newStateIndex = replicate (length (state P)) 0, profState = state P,
        profTrans = ptrans P, nextIndex = 0\<rparr>"
  by (simp add: readyAfter_def)

lemma readyAfter_Suc: "readyAfter P (Suc k) = readyStep P (readyAfter P k) k"
  by (simp add: readyAfter_def)

lemma readyLoop_readyAfter: "readyLoop P = readyAfter P (length (state P))"
  by (simp add: readyLoop_def readyAfter_def)

lemma readyStep_plain:
  assumes "\<not> neither (state P ! k)"
  shows "readyStep P L k =
           L\<lparr>old2newStateIndex := (old2newStateIndex L)[k := nextIndex L],
             nextIndex := Suc (nextIndex L)\<rparr>"
  using assms by (auto simp: readyStep_def neither_def Let_def)

lemma readyStep_split:
  assumes "neither (state P ! k)" and "profState L ! k = state P ! k"
  shows "readyStep P L k =
           \<lparr>old2newStateIndex = (old2newStateIndex L)[k := nextIndex L] @ [Suc (nextIndex L)],
            profState = (profState L)[k := waitStateOf (state P ! k) (length (profTrans L))]
                          @ [readyStateOf (state P ! k) (length (profTrans L))],
            profTrans = profTrans L @ [readyTransOf k (length (profState L))],
            nextIndex = Suc (Suc (nextIndex L))\<rparr>"
  using assms
  by (simp add: readyStep_def neither_def Let_def waitStateOf_def readyStateOf_def readyTransOf_def
        newTransition_def)

lemma readyShape_step:
  assumes sh: "readyShape P k L" and k: "k < length (state P)"
  shows "readyShape P (Suc k) (readyStep P L k)"
proof (cases "neither (state P ! k)")
  case False
  from sh show ?thesis
    by (simp add: readyStep_plain [OF False] readyShape_def)
next
  case True
  from sh k have here: "profState L ! k = state P ! k" by (simp add: readyShape_def)
  from sh k show ?thesis
    by (simp add: readyStep_split [OF True here] readyShape_def nth_append nth_list_update
          Suc_diff_le)
qed

lemma readyShape_after: "k \<le> length (state P) \<Longrightarrow> readyShape P k (readyAfter P k)"
proof (induction k)
  case 0
  then show ?case by (simp add: readyAfter_0 readyShape_def)
next
  case (Suc k)
  then show ?case by (simp add: readyAfter_Suc readyShape_step)
qed

lemma readyIndices_step:
  assumes sh: "readyShape P k L" and ix: "readyIndices P k L" and k: "k < length (state P)"
  shows "readyIndices P (Suc k) (readyStep P L k)"
proof -
  let ?o = "old2newStateIndex L" and ?N = "nextIndex L" and ?n = "length (state P)"
  from sh have len: "length ?o = length (profState L)" and n: "?n \<le> length (profState L)"
    by (simp_all add: readyShape_def)
  from k n len have ko: "k < length ?o" by simp
  from ix have below: "\<And>i. assigned P k L i \<Longrightarrow> ?o ! i < ?N"
    and inj: "\<And>i j. assigned P k L i \<Longrightarrow> assigned P k L j \<Longrightarrow> ?o ! i = ?o ! j \<Longrightarrow> i = j"
    by (auto simp: readyIndices_def)
  show ?thesis
  proof (cases "neither (state P ! k)")
    case False
    let ?L' = "L\<lparr>old2newStateIndex := ?o[k := ?N], nextIndex := Suc ?N\<rparr>"
    have step: "readyStep P L k = ?L'" by (rule readyStep_plain [OF False])
    have as: "assigned P (Suc k) ?L' i \<longleftrightarrow> assigned P k L i \<or> i = k" for i
      using k n by (auto simp: assigned_def)
    have notk: "\<not> assigned P k L k" using k by (simp add: assigned_def)
    have val: "old2newStateIndex ?L' ! i = (if i = k then ?N else ?o ! i)" for i
      using ko by (simp add: nth_list_update)
    show ?thesis
      unfolding step readyIndices_def as val
      using below inj notk by (auto simp: less_Suc_eq) (metis less_irrefl)+
  next
    case True
    from sh k have here: "profState L ! k = state P ! k" by (simp add: readyShape_def)
    let ?j = "length (profState L)"
    let ?L' = "\<lparr>old2newStateIndex = ?o[k := ?N] @ [Suc ?N],
            profState = (profState L)[k := waitStateOf (state P ! k) (length (profTrans L))]
                          @ [readyStateOf (state P ! k) (length (profTrans L))],
            profTrans = profTrans L @ [readyTransOf k (length (profState L))],
            nextIndex = Suc (Suc ?N)\<rparr>"
    have step: "readyStep P L k = ?L'" by (rule readyStep_split [OF True here])
    have as: "assigned P (Suc k) ?L' i \<longleftrightarrow> assigned P k L i \<or> i = k \<or> i = ?j" for i
      using k n by (auto simp: assigned_def)
    have notk: "\<not> assigned P k L k" and notj: "\<not> assigned P k L ?j"
      using k by (simp_all add: assigned_def)
    have kj: "k \<noteq> ?j" using k n by simp
    have val: "old2newStateIndex ?L' ! i = (if i = ?j then Suc ?N else if i = k then ?N else ?o ! i)"
      if "i \<le> ?j" for i
      using that ko len by (auto simp: nth_append nth_list_update)
    have le: "i \<le> ?j" if "assigned P k L i \<or> i = k \<or> i = ?j" for i
      using that k n by (auto simp: assigned_def)
    show ?thesis
      unfolding step readyIndices_def as
    proof (intro conjI allI impI)
      fix i assume a: "assigned P k L i \<or> i = k \<or> i = ?j"
      from le [OF a] val [of i] a below [of i] kj
      show "old2newStateIndex ?L' ! i < nextIndex ?L'" by (auto simp: less_Suc_eq)
    next
      fix i j
      assume a: "(assigned P k L i \<or> i = k \<or> i = ?j) \<and> (assigned P k L j \<or> j = k \<or> j = ?j) \<and>
          old2newStateIndex ?L' ! i = old2newStateIndex ?L' ! j"
      then have ai: "assigned P k L i \<or> i = k \<or> i = ?j" and aj: "assigned P k L j \<or> j = k \<or> j = ?j"
        and eq: "old2newStateIndex ?L' ! i = old2newStateIndex ?L' ! j" by simp_all
      from eq val [OF le [OF ai]] val [OF le [OF aj]]
      have eq': "(if i = ?j then Suc ?N else if i = k then ?N else ?o ! i) =
                 (if j = ?j then Suc ?N else if j = k then ?N else ?o ! j)" by simp
      show "i = j"
      proof (cases "i = ?j \<or> i = k")
        case True
        with eq' aj below [of j] kj show ?thesis
          by (auto split: if_splits)
      next
        case False
        with ai have ai': "assigned P k L i" by simp
        show ?thesis
        proof (cases "j = ?j \<or> j = k")
          case True
          with eq' False below [OF ai'] kj show ?thesis by (auto split: if_splits)
        next
          case False
          with aj have aj': "assigned P k L j" by simp
          from \<open>\<not> (i = ?j \<or> i = k)\<close> False eq' have "?o ! i = ?o ! j" by simp
          from inj [OF ai' aj' this] show ?thesis .
        qed
      qed
    qed
  qed
qed

lemma readyIndices_after: "k \<le> length (state P) \<Longrightarrow> readyIndices P k (readyAfter P k)"
proof (induction k)
  case 0
  then show ?case by (simp add: readyAfter_0 readyIndices_def assigned_def)
next
  case (Suc k)
  then show ?case
    by (simp add: readyAfter_Suc readyIndices_step readyShape_after)
qed

lemma splitAt_step:
  assumes sh: "readyShape P k L" and k: "k < length (state P)" and s: "s < k"
    and sp: "splitAt P L s j"
  shows "splitAt P (readyStep P L k) s j"
proof -
  from sh have len: "length (old2newStateIndex L) = length (profState L)"
    and n: "length (state P) \<le> length (profState L)"
    and tl: "length (profTrans L) = length (ptrans P) + (length (profState L) - length (state P))"
    by (simp_all add: readyShape_def)
  from sp have j: "length (state P) \<le> j" "j < length (profState L)" by (simp_all add: splitAt_def)
  from j tl have ti: "length (ptrans P) + (j - length (state P)) < length (profTrans L)" by simp
  show ?thesis
  proof (cases "neither (state P ! k)")
    case False
    from sp s k j show ?thesis
      by (simp add: readyStep_plain [OF False] splitAt_def)
  next
    case True
    from sh k have here: "profState L ! k = state P ! k" by (simp add: readyShape_def)
    from sp s k j ti len show ?thesis
      by (simp add: readyStep_split [OF True here] splitAt_def nth_append)
  qed
qed

lemma splitAt_new:
  assumes sh: "readyShape P k L" and k: "k < length (state P)" and ne: "neither (state P ! k)"
  shows "splitAt P (readyStep P L k) k (length (profState L))"
proof -
  from sh have len: "length (old2newStateIndex L) = length (profState L)"
    and n: "length (state P) \<le> length (profState L)"
    and tl: "length (profTrans L) = length (ptrans P) + (length (profState L) - length (state P))"
    and here: "profState L ! k = state P ! k"
    using k by (simp_all add: readyShape_def)
  from k n len show ?thesis
    by (simp add: readyStep_split [OF ne here] splitAt_def nth_append ne tl)
qed

lemma readyContent_step:
  assumes sh: "readyShape P k L" and ct: "readyContent P k L" and k: "k < length (state P)"
  shows "readyContent P (Suc k) (readyStep P L k)"
proof -
  from sh have len: "length (old2newStateIndex L) = length (profState L)"
    and n: "length (state P) \<le> length (profState L)"
    and here: "profState L ! k = state P ! k"
    using k by (simp_all add: readyShape_def)
  from ct have plain: "\<And>s. s < k \<Longrightarrow> \<not> neither (state P ! s) \<Longrightarrow> profState L ! s = state P ! s"
    and split: "\<And>s. s < k \<Longrightarrow> neither (state P ! s) \<Longrightarrow> \<exists>j. splitAt P L s j"
    and origin: "\<And>j. length (state P) \<le> j \<Longrightarrow> j < length (profState L) \<Longrightarrow> \<exists>s < k. splitAt P L s j"
    by (auto simp: readyContent_def)
  have keep: "profState (readyStep P L k) ! s = profState L ! s" if "s < k" for s
  proof (cases "neither (state P ! k)")
    case False
    then show ?thesis by (simp add: readyStep_plain)
  next
    case True
    from that k n show ?thesis
      by (simp add: readyStep_split [OF True here] nth_append)
  qed
  have a: "\<forall>s < Suc k. \<not> neither (state P ! s) \<longrightarrow> profState (readyStep P L k) ! s = state P ! s"
  proof (intro allI impI)
    fix s assume s: "s < Suc k" and nn: "\<not> neither (state P ! s)"
    show "profState (readyStep P L k) ! s = state P ! s"
    proof (cases "s = k")
      case True
      with nn here show ?thesis by (simp add: readyStep_plain)
    next
      case False
      with s have "s < k" by simp
      with keep plain nn show ?thesis by simp
    qed
  qed
  have b: "\<forall>s < Suc k. neither (state P ! s) \<longrightarrow> (\<exists>j. splitAt P (readyStep P L k) s j)"
  proof (intro allI impI)
    fix s assume s: "s < Suc k" and ne: "neither (state P ! s)"
    show "\<exists>j. splitAt P (readyStep P L k) s j"
    proof (cases "s = k")
      case True
      with splitAt_new [OF sh k] ne show ?thesis by blast
    next
      case False
      with s have sk: "s < k" by simp
      from split [OF sk ne] obtain j where "splitAt P L s j" by blast
      from splitAt_step [OF sh k sk this] show ?thesis by blast
    qed
  qed
  have c: "\<forall>j. length (state P) \<le> j \<and> j < length (profState (readyStep P L k)) \<longrightarrow>
              (\<exists>s < Suc k. splitAt P (readyStep P L k) s j)"
  proof (intro allI impI)
    fix j assume j: "length (state P) \<le> j \<and> j < length (profState (readyStep P L k))"
    show "\<exists>s < Suc k. splitAt P (readyStep P L k) s j"
    proof (cases "j < length (profState L)")
      case True
      with j origin obtain s where sk: "s < k" and "splitAt P L s j" by blast
      from splitAt_step [OF sh k sk this(2)] sk show ?thesis by (intro exI [of _ s]) simp
    next
      case False
      have ne: "neither (state P ! k)"
      proof (rule ccontr)
        assume "\<not> neither (state P ! k)"
        with j False show False by (simp add: readyStep_plain)
      qed
      with j False have "j = length (profState L)"
        by (simp add: readyStep_split [OF ne here])
      with splitAt_new [OF sh k ne] show ?thesis by (intro exI [of _ k]) simp
    qed
  qed
  from a b c show ?thesis by (simp add: readyContent_def)
qed

lemma readyContent_after: "k \<le> length (state P) \<Longrightarrow> readyContent P k (readyAfter P k)"
proof (induction k)
  case 0
  then show ?case by (simp add: readyAfter_0 readyContent_def)
next
  case (Suc k)
  then show ?case
    by (simp add: readyAfter_Suc readyContent_step readyShape_after)
qed

lemma readyCount_after:
  "k \<le> length (state P) \<Longrightarrow>
   length (profState (readyAfter P k)) =
     length (state P) + length (filter neither (take k (state P)))"
proof (induction k)
  case 0
  then show ?case by (simp add: readyAfter_0)
next
  case (Suc k)
  then have k: "k < length (state P)" and
    ih: "length (profState (readyAfter P k)) =
           length (state P) + length (filter neither (take k (state P)))" by simp_all
  from k have sh: "readyShape P k (readyAfter P k)" by (simp add: readyShape_after)
  with k have here: "profState (readyAfter P k) ! k = state P ! k" by (simp add: readyShape_def)
  show ?case
  proof (cases "neither (state P ! k)")
    case True
    with ih k show ?thesis
      by (simp add: readyAfter_Suc readyStep_split [OF True here] take_Suc_conv_app_nth)
  next
    case False
    with ih k show ?thesis
      by (simp add: readyAfter_Suc readyStep_plain [OF False] take_Suc_conv_app_nth)
  qed
qed

subsection \<open>addReadyStates: placing and renumbering\<close>

lemma placeStates_result:
  assumes len: "length o2n = length ps"
    and bound: "\<forall>i < length ps. o2n ! i < length ps"
    and inj: "\<forall>i j. i < length ps \<and> j < length ps \<and> o2n ! i = o2n ! j \<longrightarrow> i = j"
  shows "\<exists>sts. placeStates o2n ps = Inr sts \<and> length sts = length ps \<and>
               (\<forall>i < length ps. sts ! (o2n ! i) = ps ! i) \<and>
               (\<forall>x < length ps. (\<forall>i < length ps. o2n ! i \<noteq> x) \<longrightarrow> sts ! x = newState)"
proof -
  let ?f = "\<lambda>acc s. bindE (guardedAt o2n s) (\<lambda>k.
                      if k < length acc then Inr (acc[k := ps ! s]) else Inl OutOfRange)"
  have "j \<le> length ps \<Longrightarrow>
        \<exists>acc. foldE ?f [0..<j] (replicate (length ps) newState) = Inr acc \<and>
              length acc = length ps \<and>
              (\<forall>i < j. acc ! (o2n ! i) = ps ! i) \<and>
              (\<forall>x < length ps. (\<forall>i < j. o2n ! i \<noteq> x) \<longrightarrow> acc ! x = newState)" for j
  proof (induction j)
    case 0
    then show ?case by simp
  next
    case (Suc j)
    then obtain acc where
      run: "foldE ?f [0..<j] (replicate (length ps) newState) = Inr acc"
      and al: "length acc = length ps"
      and placed: "\<forall>i < j. acc ! (o2n ! i) = ps ! i"
      and free: "\<forall>x < length ps. (\<forall>i < j. o2n ! i \<noteq> x) \<longrightarrow> acc ! x = newState"
      by auto
    from Suc.prems have j: "j < length ps" by simp
    with bound have b: "o2n ! j < length ps" by simp
    let ?acc = "acc[o2n ! j := ps ! j]"
    from j len b al have st: "?f acc j = Inr ?acc" by (simp add: guardedAt_def)
    have r: "foldE ?f [0..<Suc j] (replicate (length ps) newState) = Inr ?acc"
      by (simp only: upt_Suc_append [OF le0] foldE_snoc run bindE_Inr st)
    have p: "\<forall>i < Suc j. ?acc ! (o2n ! i) = ps ! i"
    proof (intro allI impI)
      fix i assume i: "i < Suc j"
      show "?acc ! (o2n ! i) = ps ! i"
      proof (cases "i = j")
        case True
        with b al show ?thesis by simp
      next
        case False
        with i have ij: "i < j" by simp
        from inj [rule_format, of i j] ij j have "o2n ! i \<noteq> o2n ! j" by auto
        with placed ij show ?thesis by simp
      qed
    qed
    have f: "\<forall>x < length ps. (\<forall>i < Suc j. o2n ! i \<noteq> x) \<longrightarrow> ?acc ! x = newState"
      using free by (auto simp: nth_list_update less_Suc_eq)
    from r al p f show ?case by (intro exI [of _ ?acc]) simp
  qed
  from this [of "length ps"] show ?thesis by (simp add: placeStates_def)
qed

lemma renumberTransition_Inr:
  "renumberTransition o2n t = Inr t' \<longleftrightarrow>
   src t < length o2n \<and> dest t < length o2n \<and> t' = t\<lparr>src := o2n ! src t, dest := o2n ! dest t\<rparr>"
  by (auto simp: renumberTransition_def guardedAt_def)

lemma renumber_result:
  assumes "mapE (renumberTransition o2n) ts = Inr ts'"
  shows "length ts' = length ts \<and>
         (\<forall>i < length ts. src (ts ! i) < length o2n \<and> dest (ts ! i) < length o2n \<and>
            ts' ! i = (ts ! i)\<lparr>src := o2n ! src (ts ! i), dest := o2n ! dest (ts ! i)\<rparr>)"
  using mapE_Inr [OF assms] by (simp add: renumberTransition_Inr)

lemma renumber_ok:
  assumes "\<forall>t \<in> set ts. src t < length o2n \<and> dest t < length o2n"
  shows "mapE (renumberTransition o2n) ts =
           Inr (map (\<lambda>t. t\<lparr>src := o2n ! src t, dest := o2n ! dest t\<rparr>) ts)"
  by (rule mapE_map) (use assms in \<open>simp add: renumberTransition_Inr\<close>)

lemma mapAssign_keys: "fst ` set (mapAssign k v m) = insert k (fst ` set m)"
  by (induction k v m rule: mapAssign.induct) (simp_all add: insert_commute)

lemma mapAssign_values: "snd ` set (mapAssign k v m) \<subseteq> insert v (snd ` set m)"
  by (induction k v m rule: mapAssign.induct) (simp, simp, blast)

lemma mapAssign_ascending: "keysAscending m \<Longrightarrow> keysAscending (mapAssign k v m)"
proof (induction m)
  case Nil
  then show ?case by (simp add: keysAscending_def)
next
  case (Cons e m)
  obtain k' v' where e: "e = (k', v')" by (cases e)
  from Cons.prems have tl: "keysAscending m" and hd: "\<forall>x \<in> fst ` set m. k' < x"
    by (auto simp: keysAscending_def e)
  from Cons.IH [OF tl] have ih: "keysAscending (mapAssign k v m)" .
  show ?case
  proof (cases "k < k'")
    case True
    with Cons.prems show ?thesis by (auto simp: keysAscending_def e)
  next
    case False
    show ?thesis
    proof (cases "k = k'")
      case True
      with Cons.prems show ?thesis by (auto simp: keysAscending_def e)
    next
      case ne: False
      with False have gt: "k' < k" by simp
      have "\<forall>x \<in> fst ` set (mapAssign k v m). k' < x"
        using hd gt by (simp add: mapAssign_keys)
      with ih False ne show ?thesis
        by (auto simp: keysAscending_def e)
    qed
  qed
qed

lemma mapAssign_last: "\<forall>x \<in> fst ` set m. x < k \<Longrightarrow> mapAssign k v m = m @ [(k, v)]"
  by (induction m) auto

lemma renumberEquiv_result:
  "foldE (\<lambda>m (k, v). bindE (guardedAt o2n k) (\<lambda>k'. bindE (guardedAt o2n v) (\<lambda>v'.
            Inr (mapAssign k' v' m)))) entries acc = Inr eq \<Longrightarrow>
   keysAscending acc \<Longrightarrow>
   (\<forall>e \<in> set acc. fst e < N \<and> snd e < N) \<Longrightarrow>
   (\<forall>i < length o2n. o2n ! i < N) \<Longrightarrow>
   keysAscending eq \<and> (\<forall>e \<in> set eq. fst e < N \<and> snd e < N)"
proof (induction entries arbitrary: acc)
  case Nil
  then show ?case by simp
next
  case (Cons e entries)
  obtain k v where e: "e = (k, v)" by (cases e)
  from Cons.prems(1) have k: "k < length o2n" and v: "v < length o2n"
    and rest: "foldE (\<lambda>m (k, v). bindE (guardedAt o2n k) (\<lambda>k'. bindE (guardedAt o2n v) (\<lambda>v'.
            Inr (mapAssign k' v' m)))) entries (mapAssign (o2n ! k) (o2n ! v) acc) = Inr eq"
    by (auto simp: e guardedAt_def bindE_def split: if_splits)
  have asc: "keysAscending (mapAssign (o2n ! k) (o2n ! v) acc)"
    by (rule mapAssign_ascending [OF Cons.prems(2)])
  have bnd: "\<forall>e \<in> set (mapAssign (o2n ! k) (o2n ! v) acc). fst e < N \<and> snd e < N"
  proof
    fix x assume x: "x \<in> set (mapAssign (o2n ! k) (o2n ! v) acc)"
    then have "fst x \<in> insert (o2n ! k) (fst ` set acc)"
      using mapAssign_keys [of "o2n ! k" "o2n ! v" acc] by auto
    moreover from x have "snd x \<in> insert (o2n ! v) (snd ` set acc)"
      using mapAssign_values [of "o2n ! k" "o2n ! v" acc] by auto
    ultimately show "fst x < N \<and> snd x < N"
      using Cons.prems(3,4) k v by auto
  qed
  from Cons.IH [OF rest asc bnd Cons.prems(4)] show ?case .
qed

lemma renumberEquiv_identity:
  "keysAscending (acc @ entries) \<Longrightarrow> (\<forall>e \<in> set entries. fst e < N \<and> snd e < N) \<Longrightarrow>
   foldE (\<lambda>m (k, v). bindE (guardedAt [0..<N] k) (\<lambda>k'. bindE (guardedAt [0..<N] v) (\<lambda>v'.
            Inr (mapAssign k' v' m)))) entries acc = Inr (acc @ entries)"
proof (induction entries arbitrary: acc)
  case Nil
  then show ?case by simp
next
  case (Cons e entries)
  obtain k v where e: "e = (k, v)" by (cases e)
  from Cons.prems(2) have k: "k < N" and v: "v < N" by (simp_all add: e)
  from Cons.prems(1) have "\<forall>x \<in> fst ` set acc. x < k"
    by (auto simp: keysAscending_def e sorted_wrt_append)
  then have ma: "mapAssign k v acc = acc @ [(k, v)]" by (rule mapAssign_last)
  from Cons.prems(1) have asc: "keysAscending ((acc @ [(k, v)]) @ entries)" by (simp add: e)
  from Cons.prems(2) have bnd: "\<forall>e \<in> set entries. fst e < N \<and> snd e < N" by simp
  from Cons.IH [OF asc bnd] k v ma show ?case
    by (simp add: e guardedAt_def)
qed

lemma renumberEquiv_ok:
  "(\<forall>e \<in> set entries. fst e < length o2n \<and> snd e < length o2n) \<Longrightarrow>
   \<exists>eq. foldE (\<lambda>m (k, v). bindE (guardedAt o2n k) (\<lambda>k'. bindE (guardedAt o2n v) (\<lambda>v'.
            Inr (mapAssign k' v' m)))) entries acc = Inr eq"
proof (induction entries arbitrary: acc)
  case Nil
  then show ?case by simp
next
  case (Cons e entries)
  obtain k v where e: "e = (k, v)" by (cases e)
  from Cons.prems have "k < length o2n" "v < length o2n" by (simp_all add: e)
  with Cons.IH [of "mapAssign (o2n ! k) (o2n ! v) acc"] Cons.prems show ?case
    by (simp add: e guardedAt_def)
qed

subsection \<open>addReadyStates: the result\<close>

lemma readyLoop_shape:
  "length (old2newStateIndex (readyLoop P)) = length (profState (readyLoop P))"
  "length (state P) \<le> length (profState (readyLoop P))"
  "length (profTrans (readyLoop P)) =
     length (ptrans P) + (length (profState (readyLoop P)) - length (state P))"
  "take (length (ptrans P)) (profTrans (readyLoop P)) = ptrans P"
  "length (profState (readyLoop P)) = length (state P) + length (filter neither (state P))"
  using readyShape_after [of "length (state P)" P] readyCount_after [of "length (state P)" P]
  by (simp_all add: readyLoop_readyAfter readyShape_def)

lemma readyLoop_indices:
  "i < length (profState (readyLoop P)) \<Longrightarrow>
   old2newStateIndex (readyLoop P) ! i < length (profState (readyLoop P))"
  "i < length (profState (readyLoop P)) \<Longrightarrow> j < length (profState (readyLoop P)) \<Longrightarrow>
   old2newStateIndex (readyLoop P) ! i = old2newStateIndex (readyLoop P) ! j \<Longrightarrow> i = j"
proof -
  let ?L = "readyLoop P"
  have sh: "readyShape P (length (state P)) ?L"
    using readyShape_after [of "length (state P)" P] by (simp add: readyLoop_readyAfter)
  have ix: "readyIndices P (length (state P)) ?L"
    using readyIndices_after [of "length (state P)" P] by (simp add: readyLoop_readyAfter)
  have a: "assigned P (length (state P)) ?L i" if "i < length (profState ?L)" for i
    using that by (auto simp: assigned_def)
  from sh have nx: "nextIndex ?L = length (profState ?L)" by (simp add: readyShape_def)
  show "i < length (profState ?L) \<Longrightarrow> old2newStateIndex ?L ! i < length (profState ?L)"
    using ix a [of i] nx by (simp add: readyIndices_def)
  show "i < length (profState ?L) \<Longrightarrow> j < length (profState ?L) \<Longrightarrow>
        old2newStateIndex ?L ! i = old2newStateIndex ?L ! j \<Longrightarrow> i = j"
    using ix a [of i] a [of j] unfolding readyIndices_def by blast
qed

lemma readyLoop_content:
  "s < length (state P) \<Longrightarrow> \<not> neither (state P ! s) \<Longrightarrow>
   profState (readyLoop P) ! s = state P ! s"
  "s < length (state P) \<Longrightarrow> neither (state P ! s) \<Longrightarrow> \<exists>j. splitAt P (readyLoop P) s j"
  "length (state P) \<le> j \<Longrightarrow> j < length (profState (readyLoop P)) \<Longrightarrow>
   \<exists>s < length (state P). splitAt P (readyLoop P) s j"
  using readyContent_after [of "length (state P)" P]
  by (simp_all add: readyLoop_readyAfter readyContent_def)

lemma addReadyStates_parts:
  assumes "addReadyStates P = Inr Q"
  shows "\<exists>sts ts eq.
           placeStates (old2newStateIndex (readyLoop P)) (profState (readyLoop P)) = Inr sts \<and>
           mapE (renumberTransition (old2newStateIndex (readyLoop P))) (profTrans (readyLoop P)) = Inr ts \<and>
           renumberEquiv (old2newStateIndex (readyLoop P)) (equivAbsorbState P) = Inr eq \<and>
           Q = \<lparr>pname = pname P, pmeta = pmeta P, components = components P,
                alphSize = alphSize P, state = sts, ptrans = ts,
                equivAbsorbState = eq, pseq = pseq P\<rparr>"
  using assms unfolding addReadyStates_def Let_def bindE_eq_Inr by auto

lemma addReadyStates_states:
  assumes "addReadyStates P = Inr Q"
  shows "length (state Q) = length (profState (readyLoop P)) \<and>
         (\<forall>i < length (profState (readyLoop P)).
            state Q ! (old2newStateIndex (readyLoop P) ! i) = profState (readyLoop P) ! i) \<and>
         (\<forall>x < length (profState (readyLoop P)).
            (\<forall>i < length (profState (readyLoop P)). old2newStateIndex (readyLoop P) ! i \<noteq> x) \<longrightarrow>
            state Q ! x = newState)"
proof -
  let ?L = "readyLoop P"
  from addReadyStates_parts [OF assms] obtain sts where
    pl: "placeStates (old2newStateIndex ?L) (profState ?L) = Inr sts" and st: "state Q = sts"
    by auto
  have "\<exists>sts. placeStates (old2newStateIndex ?L) (profState ?L) = Inr sts \<and>
          length sts = length (profState ?L) \<and>
          (\<forall>i < length (profState ?L). sts ! (old2newStateIndex ?L ! i) = profState ?L ! i) \<and>
          (\<forall>x < length (profState ?L).
             (\<forall>i < length (profState ?L). old2newStateIndex ?L ! i \<noteq> x) \<longrightarrow> sts ! x = newState)"
    by (rule placeStates_result) (use readyLoop_shape(1) readyLoop_indices in blast)+
  with pl st show ?thesis by simp
qed

lemma addReadyStates_transitions:
  assumes "addReadyStates P = Inr Q"
  shows "length (ptrans Q) = length (profTrans (readyLoop P)) \<and>
         (\<forall>i < length (profTrans (readyLoop P)).
            src (profTrans (readyLoop P) ! i) < length (profState (readyLoop P)) \<and>
            dest (profTrans (readyLoop P) ! i) < length (profState (readyLoop P)) \<and>
            ptrans Q ! i = (profTrans (readyLoop P) ! i)
              \<lparr>src := old2newStateIndex (readyLoop P) ! src (profTrans (readyLoop P) ! i),
               dest := old2newStateIndex (readyLoop P) ! dest (profTrans (readyLoop P) ! i)\<rparr>)"
proof -
  let ?L = "readyLoop P"
  from addReadyStates_parts [OF assms] obtain ts where
    m: "mapE (renumberTransition (old2newStateIndex ?L)) (profTrans ?L) = Inr ts"
    and t: "ptrans Q = ts"
    by auto
  from renumber_result [OF m] t show ?thesis by (simp add: readyLoop_shape(1))
qed

lemma addReadyStates_equiv:
  assumes "addReadyStates P = Inr Q"
  shows "keysAscending (equivAbsorbState Q) \<and>
         (\<forall>e \<in> set (equivAbsorbState Q).
            fst e < length (profState (readyLoop P)) \<and> snd e < length (profState (readyLoop P)))"
proof -
  let ?L = "readyLoop P"
  from addReadyStates_parts [OF assms] obtain eq where
    r: "renumberEquiv (old2newStateIndex ?L) (equivAbsorbState P) = Inr eq"
    and e: "equivAbsorbState Q = eq"
    by auto
  have "keysAscending eq \<and> (\<forall>e \<in> set eq. fst e < length (profState ?L) \<and> snd e < length (profState ?L))"
    by (rule renumberEquiv_result [OF r [unfolded renumberEquiv_def]])
       (simp_all add: keysAscending_def readyLoop_shape(1) readyLoop_indices(1))
  with e show ?thesis by simp
qed

lemma addReadyStates_frame:
  assumes "addReadyStates P = Inr Q"
  shows "pname Q = pname P" "pmeta Q = pmeta P" "components Q = components P"
    "alphSize Q = alphSize P" "pseq Q = pseq P"
  using addReadyStates_parts [OF assms] by auto

text \<open>When the guarded accesses of the last three loops succeed.\<close>

lemma addReadyStates_ok:
  assumes tr: "\<forall>t \<in> set (ptrans P). src t < length (state P) \<and> dest t < length (state P)"
    and eq: "\<forall>e \<in> set (equivAbsorbState P). fst e < length (state P) \<and> snd e < length (state P)"
  shows "\<exists>Q. addReadyStates P = Inr Q"
proof -
  let ?L = "readyLoop P"
  let ?N = "length (profState ?L)"
  have "\<exists>sts. placeStates (old2newStateIndex ?L) (profState ?L) = Inr sts \<and>
          length sts = length (profState ?L) \<and>
          (\<forall>i < length (profState ?L). sts ! (old2newStateIndex ?L ! i) = profState ?L ! i) \<and>
          (\<forall>x < length (profState ?L).
             (\<forall>i < length (profState ?L). old2newStateIndex ?L ! i \<noteq> x) \<longrightarrow> sts ! x = newState)"
    by (rule placeStates_result) (use readyLoop_shape(1) readyLoop_indices in blast)+
  then obtain sts where pl: "placeStates (old2newStateIndex ?L) (profState ?L) = Inr sts" by blast
  have inr: "src t < ?N \<and> dest t < ?N" if "t \<in> set (profTrans ?L)" for t
  proof -
    from that obtain i where i: "i < length (profTrans ?L)" and t: "t = profTrans ?L ! i"
      by (auto simp: in_set_conv_nth)
    show ?thesis
    proof (cases "i < length (ptrans P)")
      case True
      then have "profTrans ?L ! i = ptrans P ! i"
        using readyLoop_shape(4) [of P] by (metis nth_take)
      with True tr t readyLoop_shape(2) [of P] show ?thesis
        by (metis nth_mem less_le_trans)
    next
      case False
      let ?j = "length (state P) + (i - length (ptrans P))"
      from False i readyLoop_shape(3) [of P] have j: "length (state P) \<le> ?j" "?j < ?N"
        by simp_all
      from readyLoop_content(3) [OF j] obtain s where s: "s < length (state P)"
        and sp: "splitAt P ?L s ?j" by blast
      from sp False have "profTrans ?L ! i = readyTransOf s ?j" by (simp add: splitAt_def)
      with t s j readyLoop_shape(2) [of P] show ?thesis by (simp add: readyTransOf_def)
    qed
  qed
  have "\<exists>ts. mapE (renumberTransition (old2newStateIndex ?L)) (profTrans ?L) = Inr ts"
    by (rule mapE_ok) (use inr in \<open>simp add: renumberTransition_Inr readyLoop_shape(1)\<close>)
  then obtain ts where ts: "mapE (renumberTransition (old2newStateIndex ?L)) (profTrans ?L) = Inr ts"
    by blast
  have "\<forall>e \<in> set (equivAbsorbState P). fst e < length (old2newStateIndex ?L) \<and>
          snd e < length (old2newStateIndex ?L)"
    using eq readyLoop_shape(1,2) [of P] by (metis less_le_trans)
  from renumberEquiv_ok [OF this] obtain eq' where
    eq': "renumberEquiv (old2newStateIndex ?L) (equivAbsorbState P) = Inr eq'"
    unfolding renumberEquiv_def by blast
  from pl ts eq' show ?thesis by (simp add: addReadyStates_def Let_def)
qed

subsection \<open>addReadyStates: Wait or Ready, and the second application\<close>

lemma waitStateOf_wait: "isWait (waitStateOf s ti)"
  by (simp add: waitStateOf_def isWait_def)

lemma readyStateOf_ready: "neither s \<Longrightarrow> isReady (readyStateOf s ti)"
  by (simp add: readyStateOf_def isReady_def isWait_def neither_def newState_def)

lemma newState_wait: "isWait newState"
  by (simp add: newState_def isWait_def)

text \<open>A state is neither Wait nor Ready when it has out-transitions of both kinds.\<close>

lemma neither_both: "neither s \<longleftrightarrow> nullOut s \<noteq> [] \<and> absorbOut s \<noteq> []"
  by (auto simp: neither_def isReady_def isWait_def)

lemma waitReady_exclusive: "\<not> (isWait s \<and> isReady s)"
  by (simp add: isReady_def isWait_def)

lemma readyLoop_waitReady:
  assumes "i < length (profState (readyLoop P))"
  shows "\<not> neither (profState (readyLoop P) ! i)"
proof (cases "i < length (state P)")
  case True
  show ?thesis
  proof (cases "neither (state P ! i)")
    case False
    with readyLoop_content(1) [OF True] show ?thesis by simp
  next
    case n: True
    from readyLoop_content(2) [OF True n] obtain j where "splitAt P (readyLoop P) i j" ..
    then show ?thesis by (simp add: splitAt_def neither_def waitStateOf_wait)
  qed
next
  case False
  then have "length (state P) \<le> i" by simp
  from readyLoop_content(3) [OF this assms] obtain s where "splitAt P (readyLoop P) s i" by blast
  then have "neither (state P ! s)"
    and "\<exists>ti. profState (readyLoop P) ! i = readyStateOf (state P ! s) ti"
    unfolding splitAt_def by blast+
  then show ?thesis using readyStateOf_ready by (auto simp: neither_def)
qed

lemma addReadyStates_waitReady:
  assumes "addReadyStates P = Inr Q" and s: "s \<in> set (state Q)"
  shows "\<not> neither s"
proof -
  let ?L = "readyLoop P"
  note st = addReadyStates_states [OF assms(1)]
  from s obtain x where x: "x < length (state Q)" and sx: "s = state Q ! x"
    by (auto simp: in_set_conv_nth)
  show ?thesis
  proof (cases "\<exists>i < length (profState ?L). old2newStateIndex ?L ! i = x")
    case True
    then obtain i where i: "i < length (profState ?L)" and "old2newStateIndex ?L ! i = x" by blast
    with st have "state Q ! x = profState ?L ! i" by auto
    with readyLoop_waitReady [OF i] sx show ?thesis by simp
  next
    case False
    with st x have "state Q ! x = newState" by auto
    with sx show ?thesis by (simp add: neither_def newState_wait)
  qed
qed

text \<open>The first loop on a profile whose states are all Wait or Ready.\<close>

lemma readyAfter_plain:
  assumes wr: "\<forall>s \<in> set (state Q). \<not> neither s"
  shows "k \<le> length (state Q) \<Longrightarrow>
         readyAfter Q k = \<lparr>old2newStateIndex = [0..<k] @ replicate (length (state Q) - k) 0,
                           profState = state Q, profTrans = ptrans Q, nextIndex = k\<rparr>"
proof (induction k)
  case 0
  then show ?case by (simp add: readyAfter_0)
next
  case (Suc k)
  then have k: "k < length (state Q)" by simp
  with wr have plain: "\<not> neither (state Q ! k)" by simp
  from k have rep: "replicate (length (state Q) - k) (0::nat) =
                      0 # replicate (length (state Q) - Suc k) 0"
    by (simp add: Suc_diff_Suc flip: replicate_Suc)
  from Suc k show ?case
    by (simp add: readyAfter_Suc readyStep_plain [OF plain] rep list_update_append)
qed

lemma readyLoop_plain:
  assumes "\<forall>s \<in> set (state Q). \<not> neither s"
  shows "readyLoop Q = \<lparr>old2newStateIndex = [0..<length (state Q)], profState = state Q,
                        profTrans = ptrans Q, nextIndex = length (state Q)\<rparr>"
  using readyAfter_plain [OF assms, of "length (state Q)"] by (simp add: readyLoop_readyAfter)

lemma addReadyStates_fixed:
  assumes wr: "\<forall>s \<in> set (state Q). \<not> neither s"
    and tr: "\<forall>t \<in> set (ptrans Q). src t < length (state Q) \<and> dest t < length (state Q)"
    and asc: "keysAscending (equivAbsorbState Q)"
    and eq: "\<forall>e \<in> set (equivAbsorbState Q). fst e < length (state Q) \<and> snd e < length (state Q)"
  shows "addReadyStates Q = Inr Q"
proof -
  let ?N = "length (state Q)"
  note L = readyLoop_plain [OF wr]
  have "\<exists>sts. placeStates [0..<?N] (state Q) = Inr sts \<and> length sts = ?N \<and>
          (\<forall>i < ?N. sts ! ([0..<?N] ! i) = state Q ! i) \<and>
          (\<forall>x < ?N. (\<forall>i < ?N. [0..<?N] ! i \<noteq> x) \<longrightarrow> sts ! x = newState)"
    by (rule placeStates_result) auto
  then obtain sts where pl: "placeStates [0..<?N] (state Q) = Inr sts"
    and len: "length sts = ?N" and nth: "\<forall>i < ?N. sts ! i = state Q ! i"
    by auto
  from len nth have sts: "sts = state Q" by (simp add: nth_equalityI)
  have "mapE (renumberTransition [0..<?N]) (ptrans Q) =
          Inr (map (\<lambda>t. t\<lparr>src := [0..<?N] ! src t, dest := [0..<?N] ! dest t\<rparr>) (ptrans Q))"
    by (rule renumber_ok) (use tr in simp)
  also have "map (\<lambda>t. t\<lparr>src := [0..<?N] ! src t, dest := [0..<?N] ! dest t\<rparr>) (ptrans Q) = ptrans Q"
    by (rule map_idI) (use tr in simp)
  finally have ts: "mapE (renumberTransition [0..<?N]) (ptrans Q) = Inr (ptrans Q)" .
  have e: "renumberEquiv [0..<?N] (equivAbsorbState Q) = Inr (equivAbsorbState Q)"
    unfolding renumberEquiv_def
    using renumberEquiv_identity [of "[]" "equivAbsorbState Q" ?N] asc eq by simp
  show ?thesis
    by (simp add: addReadyStates_def L pl sts ts e)
qed

lemma addReadyStates_twice:
  assumes "addReadyStates P = Inr Q"
  shows "addReadyStates Q = Inr Q"
proof (rule addReadyStates_fixed)
  note st = addReadyStates_states [OF assms]
  note tr = addReadyStates_transitions [OF assms]
  note eq = addReadyStates_equiv [OF assms]
  show "\<forall>s \<in> set (state Q). \<not> neither s"
    using addReadyStates_waitReady [OF assms] by blast
  show "\<forall>t \<in> set (ptrans Q). src t < length (state Q) \<and> dest t < length (state Q)"
  proof
    fix t assume "t \<in> set (ptrans Q)"
    then obtain i where i: "i < length (ptrans Q)" and t: "t = ptrans Q ! i"
      by (auto simp: in_set_conv_nth)
    from i tr have i': "i < length (profTrans (readyLoop P))" by simp
    with tr have "src (profTrans (readyLoop P) ! i) < length (profState (readyLoop P))"
      "dest (profTrans (readyLoop P) ! i) < length (profState (readyLoop P))"
      "ptrans Q ! i = (profTrans (readyLoop P) ! i)
              \<lparr>src := old2newStateIndex (readyLoop P) ! src (profTrans (readyLoop P) ! i),
               dest := old2newStateIndex (readyLoop P) ! dest (profTrans (readyLoop P) ! i)\<rparr>"
      by simp_all
    with t st show "src t < length (state Q) \<and> dest t < length (state Q)"
      by (simp add: readyLoop_indices(1))
  qed
  show "keysAscending (equivAbsorbState Q)" using eq by simp
  show "\<forall>e \<in> set (equivAbsorbState Q). fst e < length (state Q) \<and> snd e < length (state Q)"
    using eq st by simp
qed

lemma addReadyStates_kept:
  assumes Q: "addReadyStates P = Inr Q" and s: "s < length (state P)"
    and plain: "\<not> neither (state P ! s)"
  shows "\<exists>w < length (state Q). state Q ! w = state P ! s"
proof -
  let ?L = "readyLoop P"
  note st = addReadyStates_states [OF Q]
  from s readyLoop_shape(2) [of P] have s': "s < length (profState ?L)" by simp
  from st s' have "state Q ! (old2newStateIndex ?L ! s) = profState ?L ! s" by simp
  with readyLoop_content(1) [OF s plain] readyLoop_indices(1) [OF s'] st show ?thesis
    by auto
qed

lemma addReadyStates_split:
  assumes Q: "addReadyStates P = Inr Q" and s: "s < length (state P)"
    and n: "neither (state P ! s)"
  shows "\<exists>w ti. Suc w < length (state Q) \<and> length (ptrans P) \<le> ti \<and> ti < length (ptrans Q) \<and>
           state Q ! w = waitStateOf (state P ! s) ti \<and>
           state Q ! Suc w = readyStateOf (state P ! s) ti \<and>
           ptrans Q ! ti = readyTransOf w (Suc w)"
proof -
  let ?L = "readyLoop P"
  let ?o = "old2newStateIndex ?L"
  note st = addReadyStates_states [OF Q]
  note tr = addReadyStates_transitions [OF Q]
  from readyLoop_content(2) [OF s n] obtain j where sp: "splitAt P ?L s j" ..
  let ?ti = "length (ptrans P) + (j - length (state P))"
  from sp have j: "length (state P) \<le> j" "j < length (profState ?L)"
    and nx: "?o ! j = Suc (?o ! s)"
    and w: "profState ?L ! s = waitStateOf (state P ! s) ?ti"
    and r: "profState ?L ! j = readyStateOf (state P ! s) ?ti"
    and t: "profTrans ?L ! ?ti = readyTransOf s j"
    unfolding splitAt_def by blast+
  from s readyLoop_shape(2) [of P] have s': "s < length (profState ?L)" by simp
  from j readyLoop_shape(3) [of P] have ti: "?ti < length (profTrans ?L)" by simp
  from st s' have "state Q ! (?o ! s) = profState ?L ! s" by blast
  with w have a: "state Q ! (?o ! s) = waitStateOf (state P ! s) ?ti" by (simp only:)
  from st j(2) have "state Q ! (?o ! j) = profState ?L ! j" by blast
  with r nx have b: "state Q ! Suc (?o ! s) = readyStateOf (state P ! s) ?ti" by (simp only:)
  from tr ti have "ptrans Q ! ?ti = (profTrans ?L ! ?ti)
              \<lparr>src := ?o ! src (profTrans ?L ! ?ti), dest := ?o ! dest (profTrans ?L ! ?ti)\<rparr>"
    by blast
  then have c: "ptrans Q ! ?ti = readyTransOf (?o ! s) (Suc (?o ! s))"
    by (simp only: t nx [symmetric]) (simp add: readyTransOf_def)
  from readyLoop_indices(1) [OF j(2)] nx st have d: "Suc (?o ! s) < length (state Q)"
    by (simp only:)
  from ti tr have e: "?ti < length (ptrans Q)" by simp
  have f: "length (ptrans P) \<le> ?ti" by simp
  from a b c d e f show ?thesis by blast
qed

lemma addReadyStates_sizes:
  assumes Q: "addReadyStates P = Inr Q"
  shows "length (state Q) = length (state P) + length (filter neither (state P))"
    "length (ptrans Q) = length (ptrans P) + length (filter neither (state P))"
  using addReadyStates_states [OF Q] addReadyStates_transitions [OF Q]
    readyLoop_shape(3,5) [of P]
  by simp_all

text \<open>
  Claim C5. \<^verbatim>\<open>addReadyStates\<close> is idempotent: applied to its own result it returns that
  result (and where a guarded access fails, the failure is what both sides are). It
  returns whenever the transitions and the equivalence entries of the profile name states
  of the profile. After one application every state is exactly one of Wait or Ready: no
  state has out-transitions of both kinds. A state that was neither is split: at some
  index \<open>w\<close> stands the Wait state (the old state, its name followed by \<open>;\<close>, its
  absorbing out-transitions removed, its null out-transitions kept and followed by the
  new transition \<open>ti\<close>), at \<open>w + 1\<close> the fresh
  Ready state (the old name followed by \<open>.\<close>, the old \<^verbatim>\<open>meta\<close>, \<^verbatim>\<open>seqCoords\<close> and absorbing
  out-transitions, entered by \<open>ti\<close> alone), and transition \<open>ti\<close>, appended after the old
  ones, goes from \<open>w\<close> to \<open>w + 1\<close> with \<open>lpTrans = 0\<close> and an empty path. Every other state
  is kept as it was. So the result has one state and one transition more for every state
  split.
\<close>

theorem C5_addReadyStates:
  "bindE (addReadyStates P) addReadyStates = addReadyStates P \<and>
   ((\<forall>t \<in> set (ptrans P). src t < length (state P) \<and> dest t < length (state P)) \<and>
    (\<forall>e \<in> set (equivAbsorbState P). fst e < length (state P) \<and> snd e < length (state P)) \<longrightarrow>
    (\<exists>Q. addReadyStates P = Inr Q)) \<and>
   (\<forall>Q. addReadyStates P = Inr Q \<longrightarrow>
      (\<forall>x \<in> set (state Q). (isWait x \<or> isReady x) \<and> \<not> (isWait x \<and> isReady x) \<and>
          (nullOut x = [] \<or> absorbOut x = [])) \<and>
      length (state Q) = length (state P) + length (filter neither (state P)) \<and>
      length (ptrans Q) = length (ptrans P) + length (filter neither (state P)) \<and>
      (\<forall>s < length (state P).
         if neither (state P ! s) then
           \<exists>w ti. Suc w < length (state Q) \<and> length (ptrans P) \<le> ti \<and> ti < length (ptrans Q) \<and>
             state Q ! w = waitStateOf (state P ! s) ti \<and>
             state Q ! Suc w = readyStateOf (state P ! s) ti \<and>
             ptrans Q ! ti = readyTransOf w (Suc w)
         else \<exists>w < length (state Q). state Q ! w = state P ! s))"
proof -
  have idem: "bindE (addReadyStates P) addReadyStates = addReadyStates P"
  proof (cases "addReadyStates P")
    case (Inl e)
    then show ?thesis by simp
  next
    case (Inr Q)
    with addReadyStates_twice [OF Inr] show ?thesis by simp
  qed
  have ok: "(\<forall>t \<in> set (ptrans P). src t < length (state P) \<and> dest t < length (state P)) \<and>
    (\<forall>e \<in> set (equivAbsorbState P). fst e < length (state P) \<and> snd e < length (state P)) \<longrightarrow>
    (\<exists>Q. addReadyStates P = Inr Q)"
    by (simp add: addReadyStates_ok)
  have wr: "\<forall>x \<in> set (state Q). (isWait x \<or> isReady x) \<and> \<not> (isWait x \<and> isReady x) \<and>
          (nullOut x = [] \<or> absorbOut x = [])"
    if Q: "addReadyStates P = Inr Q" for Q
  proof
    fix x assume "x \<in> set (state Q)"
    from addReadyStates_waitReady [OF Q this] have n: "\<not> neither x" .
    then have a: "isWait x \<or> isReady x" by (auto simp: neither_def)
    from n have b: "nullOut x = [] \<or> absorbOut x = []" by (simp add: neither_both)
    from a b waitReady_exclusive [of x]
    show "(isWait x \<or> isReady x) \<and> \<not> (isWait x \<and> isReady x) \<and>
          (nullOut x = [] \<or> absorbOut x = [])" by simp
  qed
  have split: "\<forall>s < length (state P).
         if neither (state P ! s) then
           \<exists>w ti. Suc w < length (state Q) \<and> length (ptrans P) \<le> ti \<and> ti < length (ptrans Q) \<and>
             state Q ! w = waitStateOf (state P ! s) ti \<and>
             state Q ! Suc w = readyStateOf (state P ! s) ti \<and>
             ptrans Q ! ti = readyTransOf w (Suc w)
         else \<exists>w < length (state Q). state Q ! w = state P ! s"
    if Q: "addReadyStates P = Inr Q" for Q
  proof (intro allI impI)
    fix s assume s: "s < length (state P)"
    show "if neither (state P ! s) then
           \<exists>w ti. Suc w < length (state Q) \<and> length (ptrans P) \<le> ti \<and> ti < length (ptrans Q) \<and>
             state Q ! w = waitStateOf (state P ! s) ti \<and>
             state Q ! Suc w = readyStateOf (state P ! s) ti \<and>
             ptrans Q ! ti = readyTransOf w (Suc w)
         else \<exists>w < length (state Q). state Q ! w = state P ! s"
    proof (cases "neither (state P ! s)")
      case True
      with addReadyStates_split [OF Q s True] show ?thesis by simp
    next
      case False
      with addReadyStates_kept [OF Q s False] show ?thesis by simp
    qed
  qed
  show ?thesis
    apply (rule conjI [OF idem])
    apply (rule conjI [OF ok])
    apply (rule allI)
    apply (rule impI)
    apply (rule conjI)
     apply (erule wr)
    apply (rule conjI)
     apply (erule addReadyStates_sizes(1))
    apply (rule conjI)
     apply (erule addReadyStates_sizes(2))
    apply (erule split)
    done
qed

theorem C5_addReadyStates_witness:
  "neither (state exampleProfile ! 1) \<and>
   (\<exists>Q. addReadyStates exampleProfile = Inr Q \<and> addReadyStates Q = Inr Q \<and>
        length (state Q) = 5 \<and> length (ptrans Q) = 5 \<and>
        (\<exists>w. sname (state Q ! w) = ''A;'' \<and> nullOut (state Q ! w) = [1, 4] \<and>
             absorbOut (state Q ! w) = [] \<and> isWait (state Q ! w) \<and> \<not> isReady (state Q ! w) \<and>
             sname (state Q ! Suc w) = ''A.'' \<and> nullOut (state Q ! Suc w) = [] \<and>
             absorbOut (state Q ! Suc w) = [2] \<and>
             isReady (state Q ! Suc w) \<and> \<not> isWait (state Q ! Suc w) \<and>
             ptrans Q ! 4 = \<lparr>src = w, dest = Suc w, lpTrans = LP 0, tpath = Map.empty\<rparr>))"
proof -
  let ?P = exampleProfile
  note T = C5_addReadyStates [of ?P]
  have n1: "neither (state ?P ! 1)"
    by (simp add: exampleProfile_def neither_def isReady_def isWait_def newState_def)
  have cnt: "length (filter neither (state ?P)) = 1"
    by (simp add: exampleProfile_def neither_def isReady_def isWait_def newState_def)
  have len: "length (state ?P) = 4" "length (ptrans ?P) = 4"
    by (simp_all add: exampleProfile_def)
  have hyp: "(\<forall>t \<in> set (ptrans ?P). src t < length (state ?P) \<and> dest t < length (state ?P)) \<and>
    (\<forall>e \<in> set (equivAbsorbState ?P). fst e < length (state ?P) \<and> snd e < length (state ?P))"
    by (simp add: exampleProfile_def)
  from T [THEN conjunct2, THEN conjunct1, THEN mp, OF hyp] obtain Q where
    Q: "addReadyStates ?P = Inr Q" ..
  from T [THEN conjunct1] Q have idem: "addReadyStates Q = Inr Q" by simp
  note F = T [THEN conjunct2, THEN conjunct2, THEN spec, THEN mp, OF Q]
  from F [THEN conjunct2, THEN conjunct1] cnt len have sq: "length (state Q) = 5" by simp
  from F [THEN conjunct2, THEN conjunct2, THEN conjunct1] cnt len
  have tq: "length (ptrans Q) = 5" by simp
  from F [THEN conjunct2, THEN conjunct2, THEN conjunct2, THEN spec, of 1] n1 len
  obtain w ti where ti: "length (ptrans ?P) \<le> ti" "ti < length (ptrans Q)"
    and w: "state Q ! w = waitStateOf (state ?P ! 1) ti"
    and r: "state Q ! Suc w = readyStateOf (state ?P ! 1) ti"
    and t: "ptrans Q ! ti = readyTransOf w (Suc w)"
    by auto
  from ti len tq have ti4: "ti = 4" by simp
  have "sname (state Q ! w) = ''A;'' \<and> nullOut (state Q ! w) = [1, 4] \<and>
             absorbOut (state Q ! w) = [] \<and> isWait (state Q ! w) \<and> \<not> isReady (state Q ! w) \<and>
             sname (state Q ! Suc w) = ''A.'' \<and> nullOut (state Q ! Suc w) = [] \<and>
             absorbOut (state Q ! Suc w) = [2] \<and>
             isReady (state Q ! Suc w) \<and> \<not> isWait (state Q ! Suc w) \<and>
             ptrans Q ! 4 = \<lparr>src = w, dest = Suc w, lpTrans = LP 0, tpath = Map.empty\<rparr>"
    using t unfolding w r ti4
    by (simp add: waitStateOf_def readyStateOf_def readyTransOf_def exampleProfile_def newState_def
          isWait_def isReady_def)
  with n1 Q idem sq tq show ?thesis by blast
qed

lemma leafResult_fixed:
  "addReadyStates (leafResult isWildcard dsq cpts alph sq rowIndex) =
     Inr (leafResult isWildcard dsq cpts alph sq rowIndex)"
proof (rule addReadyStates_fixed)
  let ?P = "leafResult isWildcard dsq cpts alph sq rowIndex"
  show "\<forall>s \<in> set (state ?P). \<not> neither s"
    using leafResult_waitReady [of isWildcard dsq cpts alph sq rowIndex]
    by (simp add: assertAllStatesWaitOrReady_def list_all_iff neither_def split: if_splits)
  show "\<forall>t \<in> set (ptrans ?P). src t < length (state ?P) \<and> dest t < length (state ?P)"
    using leafResult_coords [of isWildcard dsq cpts alph sq rowIndex]
    by (simp add: assertSeqCoordsConsistent_def assertTransitions_None)
  show "keysAscending (equivAbsorbState ?P)"
    by (simp add: leafResult_def keysAscending_def)
  show "\<forall>e \<in> set (equivAbsorbState ?P). fst e < length (state ?P) \<and> snd e < length (state ?P)"
    by (simp add: leafResult_def)
qed

subsection \<open>Sequence coordinates\<close>

lemma coordsAgree_null: "coordsAgree c c Map.empty Map.empty"
  by (auto simp: coordsAgree_def coordOf_def residuesOf_def)

lemma coordsConsistent_null: "coordsConsistent c c Map.empty Map.empty"
  by (simp add: coordsConsistent_def addPath_def)

lemma leafResult_consistent:
  "seqCoordsConsistent (leafResult isWildcard dsq cpts alph sq rowIndex)"
proof -
  let ?P = "leafResult isWildcard dsq cpts alph sq rowIndex"
  have "src t < length (state ?P) \<and> dest t < length (state ?P) \<and>
      coordsAgree (seqCoords (state ?P ! src t)) (seqCoords (state ?P ! dest t)) (tpath t)
        (alignPath (state ?P ! dest t))" if "t \<in> set (ptrans ?P)" for t
  proof -
    from that obtain p where p: "p < length (seq sq) + 1" and t: "t = ptrans ?P ! p"
      by (auto simp: in_set_conv_nth leafResult_lengths)
    from p have t': "t = \<lparr>src = p, dest = Suc p, lpTrans = LP 0, tpath = Map.empty\<rparr>"
      by (simp add: t leafResult_trans_nth)
    from p have a: "state ?P ! p =
        leafStateAt isWildcard rowIndex (seq sq) dsq cpts (length alph) (Suc (length (seq sq))) p"
      and b: "state ?P ! Suc p =
        leafStateAt isWildcard rowIndex (seq sq) dsq cpts (length alph) (Suc (length (seq sq))) (Suc p)"
      by (simp_all add: leafResult_state_nth)
    have "coordsAgree (seqCoords (state ?P ! p)) (seqCoords (state ?P ! Suc p)) Map.empty
            (alignPath (state ?P ! Suc p))"
      unfolding a b leafStateAt_coords leafStateAt_path
      using p by (auto simp: coordsAgree_def coordOf_def residuesOf_def alignPathResiduesInRow_def min_def)
    with p show ?thesis by (simp add: t' leafResult_lengths)
  qed
  then show ?thesis by (simp add: seqCoordsConsistent_def)
qed

lemma multiplyState_coords:
  "multiplyState sub M K s = Inr s' \<Longrightarrow> seqCoords s' = seqCoords s \<and> alignPath s' = alignPath s"
  by (auto simp: multiplyState_def bindE_eq_Inr split: if_splits)

lemma leftMultiply_coords:
  assumes "leftMultiply sub P = Inr Q"
  shows "ptrans Q = ptrans P \<and> length (state Q) = length (state P) \<and>
         (\<forall>i < length (state P). seqCoords (state Q ! i) = seqCoords (state P ! i) \<and>
                                alignPath (state Q ! i) = alignPath (state P ! i))"
proof -
  from assms obtain sts where
    m: "mapE (multiplyState sub (components P) (alphSize P)) (state P) = Inr sts"
    and Q: "Q = P\<lparr>state := sts\<rparr>"
    by (auto simp: leftMultiply_def bindE_eq_Inr)
  from mapE_Inr [OF m] Q show ?thesis by (auto dest: multiplyState_coords)
qed

lemma readyLoop_coords:
  assumes s: "s < length (state P)"
  shows "seqCoords (profState (readyLoop P) ! s) = seqCoords (state P ! s) \<and>
         alignPath (profState (readyLoop P) ! s) = alignPath (state P ! s)"
proof (cases "neither (state P ! s)")
  case False
  with readyLoop_content(1) [OF s] show ?thesis by simp
next
  case True
  from readyLoop_content(2) [OF s True] obtain j where "splitAt P (readyLoop P) s j" ..
  then show ?thesis by (simp add: splitAt_def waitStateOf_def)
qed

text \<open>
  What \<^verbatim>\<open>addReadyStates\<close> keeps: a relation \<open>R\<close> between the coordinates of the source, those of
  the destination, the transition path and the destination path that holds along every
  transition, provided it holds for equal coordinates and empty paths.
\<close>

lemma addReadyStates_edges:
  assumes Q: "addReadyStates P = Inr Q"
    and old: "\<forall>t \<in> set (ptrans P). src t < length (state P) \<and> dest t < length (state P) \<and>
                R (seqCoords (state P ! src t)) (seqCoords (state P ! dest t)) (tpath t)
                  (alignPath (state P ! dest t))"
    and null: "\<And>c. R c c Map.empty Map.empty"
    and t': "t' \<in> set (ptrans Q)"
  shows "src t' < length (state Q) \<and> dest t' < length (state Q) \<and>
         R (seqCoords (state Q ! src t')) (seqCoords (state Q ! dest t')) (tpath t')
           (alignPath (state Q ! dest t'))"
proof -
  let ?L = "readyLoop P"
  let ?o = "old2newStateIndex ?L"
  let ?N = "length (profState ?L)"
  note st = addReadyStates_states [OF Q]
  note tr = addReadyStates_transitions [OF Q]
  have place: "state Q ! (?o ! i) = profState ?L ! i" if "i < ?N" for i
    using st that by blast
  from t' obtain i where iQ: "i < length (ptrans Q)" and ti: "t' = ptrans Q ! i"
    by (auto simp: in_set_conv_nth)
  from iQ tr have i: "i < length (profTrans ?L)" by simp
  let ?t = "profTrans ?L ! i"
  from tr i have sN: "src ?t < ?N" and dN: "dest ?t < ?N"
    and eq: "ptrans Q ! i = ?t\<lparr>src := ?o ! src ?t, dest := ?o ! dest ?t\<rparr>"
    by blast+
  from eq ti have src': "src t' = ?o ! src ?t" and dest': "dest t' = ?o ! dest ?t"
    and path': "tpath t' = tpath ?t"
    by simp_all
  have bound: "src t' < length (state Q) \<and> dest t' < length (state Q)"
    using st sN dN by (simp add: src' dest' readyLoop_indices(1))
  have "R (seqCoords (profState ?L ! src ?t)) (seqCoords (profState ?L ! dest ?t)) (tpath ?t)
          (alignPath (profState ?L ! dest ?t))"
  proof (cases "i < length (ptrans P)")
    case True
    then have same: "?t = ptrans P ! i"
      using readyLoop_shape(4) [of P] by (metis nth_take)
    from True have "ptrans P ! i \<in> set (ptrans P)" by simp
    with old same have "src ?t < length (state P)" "dest ?t < length (state P)"
      "R (seqCoords (state P ! src ?t)) (seqCoords (state P ! dest ?t)) (tpath ?t)
         (alignPath (state P ! dest ?t))"
      by simp_all
    then show ?thesis by (simp add: readyLoop_coords)
  next
    case False
    let ?j = "length (state P) + (i - length (ptrans P))"
    from False i readyLoop_shape(3) [of P] have j: "length (state P) \<le> ?j" "?j < ?N"
      by simp_all
    from readyLoop_content(3) [OF j] obtain s where s: "s < length (state P)"
      and sp: "splitAt P ?L s ?j" by blast
    from sp False have t: "?t = readyTransOf s ?j"
      and w: "profState ?L ! s = waitStateOf (state P ! s) i"
      and r: "profState ?L ! ?j = readyStateOf (state P ! s) i"
      by (simp_all add: splitAt_def)
    show ?thesis
      unfolding t by (simp add: readyTransOf_def w r waitStateOf_def readyStateOf_def newState_def null)
  qed
  with place [OF sN] place [OF dN] have
    "R (seqCoords (state Q ! src t')) (seqCoords (state Q ! dest t')) (tpath t')
           (alignPath (state Q ! dest t'))"
    by (simp add: src' dest' path')
  with bound show ?thesis by simp
qed

lemma leftMultiply_ok:
  assumes "substitutionFits sub (components P) (alphSize P)"
    and "\<forall>s \<in> set (state P). emissionsFit (components P) (alphSize P) s"
  shows "\<exists>Q. leftMultiply sub P = Inr Q"
proof -
  have "\<exists>sts. mapE (multiplyState sub (components P) (alphSize P)) (state P) = Inr sts"
    by (rule mapE_ok) (use assms multiplyState_result in blast)
  then show ?thesis by (auto simp: leftMultiply_def)
qed

lemma assertSeqCoordsConsistent_None:
  "assertSeqCoordsConsistent P = None \<longleftrightarrow>
   (\<forall>t \<in> set (ptrans P). src t < length (state P) \<and> dest t < length (state P) \<and>
      coordsConsistent (seqCoords (state P ! src t)) (seqCoords (state P ! dest t)) (tpath t)
        (alignPath (state P ! dest t)))"
  by (simp add: assertSeqCoordsConsistent_def assertTransitions_None)

text \<open>
  Claim C1. Sequence-coordinate consistency is an invariant of the three operations that
  produce a profile. The leaf constructor (one token per residue, every token that is not
  a wildcard inside the alphabet) returns a profile in which, for every transition and
  every row of the source state's coordinates, of the transition's path or of the
  destination state's path, \<open>destCoords[r] = srcCoords[r] + residues (transPath[r]) +
  residues (destStatePath[r])\<close>. \<^verbatim>\<open>leftMultiply\<close> and \<^verbatim>\<open>addReadyStates\<close> return a profile with
  this property whenever they are applied to one. Both return on such a profile:
  \<^verbatim>\<open>leftMultiply\<close> when the matrices and the emission tables have the sizes of the profile,
  \<^verbatim>\<open>addReadyStates\<close> when the entries of \<^verbatim>\<open>equivAbsorbState\<close> name states of the profile.
  The same holds of the check the code makes itself, \<^verbatim>\<open>assertSeqCoordsConsistent\<close> (the rows
  of the destination coordinates, each to be found and equal).
\<close>

theorem C1_seqCoords_invariant:
  "(length dsq = length (seq sq) \<and>
    (\<forall>p < length (seq sq). \<not> isWildcard (seq sq ! p) \<longrightarrow> dsq ! p < length alph) \<longrightarrow>
    (\<exists>L. leafProfile isWildcard dsq cpts alph sq rowIndex = Inr L \<and>
         seqCoordsConsistent L \<and> assertSeqCoordsConsistent L = None)) \<and>
   (substitutionFits sub (components P) (alphSize P) \<and>
    (\<forall>s \<in> set (state P). emissionsFit (components P) (alphSize P) s) \<longrightarrow>
    (\<exists>Q. leftMultiply sub P = Inr Q)) \<and>
   (seqCoordsConsistent P \<and> leftMultiply sub P = Inr Q \<longrightarrow> seqCoordsConsistent Q) \<and>
   (assertSeqCoordsConsistent P = None \<and> leftMultiply sub P = Inr Q \<longrightarrow>
    assertSeqCoordsConsistent Q = None) \<and>
   (seqCoordsConsistent P \<and>
    (\<forall>e \<in> set (equivAbsorbState P). fst e < length (state P) \<and> snd e < length (state P)) \<longrightarrow>
    (\<exists>R. addReadyStates P = Inr R)) \<and>
   (seqCoordsConsistent P \<and> addReadyStates P = Inr R \<longrightarrow> seqCoordsConsistent R) \<and>
   (assertSeqCoordsConsistent P = None \<and> addReadyStates P = Inr R \<longrightarrow>
    assertSeqCoordsConsistent R = None)"
proof -
  have leaf: "length dsq = length (seq sq) \<and>
    (\<forall>p < length (seq sq). \<not> isWildcard (seq sq ! p) \<longrightarrow> dsq ! p < length alph) \<longrightarrow>
    (\<exists>L. leafProfile isWildcard dsq cpts alph sq rowIndex = Inr L \<and>
         seqCoordsConsistent L \<and> assertSeqCoordsConsistent L = None)"
  proof
    assume "length dsq = length (seq sq) \<and>
      (\<forall>p < length (seq sq). \<not> isWildcard (seq sq ! p) \<longrightarrow> dsq ! p < length alph)"
    then have "leafProfile isWildcard dsq cpts alph sq rowIndex =
                 Inr (leafResult isWildcard dsq cpts alph sq rowIndex)"
      by (simp add: leafProfile_result)
    with leafResult_consistent [of isWildcard dsq cpts alph sq rowIndex]
      leafResult_coords [of isWildcard dsq cpts alph sq rowIndex]
    show "\<exists>L. leafProfile isWildcard dsq cpts alph sq rowIndex = Inr L \<and>
         seqCoordsConsistent L \<and> assertSeqCoordsConsistent L = None"
      by blast
  qed
  have lmOk: "substitutionFits sub (components P) (alphSize P) \<and>
    (\<forall>s \<in> set (state P). emissionsFit (components P) (alphSize P) s) \<longrightarrow>
    (\<exists>Q. leftMultiply sub P = Inr Q)"
    by (simp add: leftMultiply_ok)
  have lm1: "seqCoordsConsistent P \<and> leftMultiply sub P = Inr Q \<longrightarrow> seqCoordsConsistent Q"
  proof
    assume a: "seqCoordsConsistent P \<and> leftMultiply sub P = Inr Q"
    note c = leftMultiply_coords [OF a [THEN conjunct2]]
    from a [THEN conjunct1] show "seqCoordsConsistent Q"
      unfolding seqCoordsConsistent_def using c by simp
  qed
  have lm2: "assertSeqCoordsConsistent P = None \<and> leftMultiply sub P = Inr Q \<longrightarrow>
    assertSeqCoordsConsistent Q = None"
  proof
    assume a: "assertSeqCoordsConsistent P = None \<and> leftMultiply sub P = Inr Q"
    note c = leftMultiply_coords [OF a [THEN conjunct2]]
    from a [THEN conjunct1] show "assertSeqCoordsConsistent Q = None"
      unfolding assertSeqCoordsConsistent_None using c by simp
  qed
  have arOk: "seqCoordsConsistent P \<and>
    (\<forall>e \<in> set (equivAbsorbState P). fst e < length (state P) \<and> snd e < length (state P)) \<longrightarrow>
    (\<exists>R. addReadyStates P = Inr R)"
  proof
    assume a: "seqCoordsConsistent P \<and>
      (\<forall>e \<in> set (equivAbsorbState P). fst e < length (state P) \<and> snd e < length (state P))"
    then have "\<forall>t \<in> set (ptrans P). src t < length (state P) \<and> dest t < length (state P)"
      by (simp add: seqCoordsConsistent_def)
    with a show "\<exists>R. addReadyStates P = Inr R" by (simp add: addReadyStates_ok)
  qed
  have ar1: "seqCoordsConsistent P \<and> addReadyStates P = Inr R \<longrightarrow> seqCoordsConsistent R"
  proof
    assume a: "seqCoordsConsistent P \<and> addReadyStates P = Inr R"
    show "seqCoordsConsistent R"
      unfolding seqCoordsConsistent_def
    proof
      fix t' assume "t' \<in> set (ptrans R)"
      then show "src t' < length (state R) \<and> dest t' < length (state R) \<and>
        coordsAgree (seqCoords (state R ! src t')) (seqCoords (state R ! dest t')) (tpath t')
          (alignPath (state R ! dest t'))"
        by (rule addReadyStates_edges [OF a [THEN conjunct2]
              a [THEN conjunct1, unfolded seqCoordsConsistent_def] coordsAgree_null])
    qed
  qed
  have ar2: "assertSeqCoordsConsistent P = None \<and> addReadyStates P = Inr R \<longrightarrow>
    assertSeqCoordsConsistent R = None"
  proof
    assume a: "assertSeqCoordsConsistent P = None \<and> addReadyStates P = Inr R"
    show "assertSeqCoordsConsistent R = None"
      unfolding assertSeqCoordsConsistent_None
    proof
      fix t' assume "t' \<in> set (ptrans R)"
      then show "src t' < length (state R) \<and> dest t' < length (state R) \<and>
        coordsConsistent (seqCoords (state R ! src t')) (seqCoords (state R ! dest t')) (tpath t')
          (alignPath (state R ! dest t'))"
        by (rule addReadyStates_edges [OF a [THEN conjunct2]
              a [THEN conjunct1, unfolded assertSeqCoordsConsistent_None] coordsConsistent_null])
    qed
  qed
  from leaf lmOk lm1 lm2 arOk ar1 ar2 show ?thesis by (intro conjI)
qed

theorem C1_seqCoords_invariant_witness:
  "seqCoordsConsistent exampleProfile \<and> assertSeqCoordsConsistent exampleProfile = None \<and>
   (\<exists>L. leafProfile (\<lambda>c. c = CHR ''*'') [0, 0, 2] 1 ''ACGT'' \<lparr>name = ''leaf'', seq = ''A*G''\<rparr> 7 = Inr L \<and>
        seqCoordsConsistent L \<and> assertSeqCoordsConsistent L = None) \<and>
   (\<exists>Q. leftMultiply [[[1]]] exampleProfile = Inr Q \<and>
        seqCoordsConsistent Q \<and> assertSeqCoordsConsistent Q = None) \<and>
   (\<exists>R. addReadyStates exampleProfile = Inr R \<and>
        seqCoordsConsistent R \<and> assertSeqCoordsConsistent R = None)"
proof -
  let ?P = exampleProfile
  let ?sq = "\<lparr>name = ''leaf'', seq = ''A*G''\<rparr>"
  let ?w = "\<lambda>c. c = CHR ''*''"
  let ?sub = "[[[1::real]]]"
  have c1: "seqCoordsConsistent ?P"
    by (simp add: seqCoordsConsistent_def exampleProfile_def coordsAgree_def coordOf_def
          residuesOf_def alignPathResiduesInRow_def newState_def)
  have c2: "assertSeqCoordsConsistent ?P = None"
    by (simp add: assertSeqCoordsConsistent_def exampleProfile_def coordsConsistent_def
          addPath_def alignPathResiduesInRow_def newState_def)
  have h1: "length [0, 0, 2 :: nat] = length (seq ?sq) \<and>
    (\<forall>p < length (seq ?sq). \<not> ?w (seq ?sq ! p) \<longrightarrow> [0, 0, 2] ! p < length ''ACGT'')"
    by (simp add: less_Suc_eq nth_Cons')
  have h2: "substitutionFits ?sub (components ?P) (alphSize ?P) \<and>
    (\<forall>s \<in> set (state ?P). emissionsFit (components ?P) (alphSize ?P) s)"
    by (simp add: substitutionFits_def emissionsFit_def exampleProfile_def isNull_def newState_def)
  have h3: "\<forall>e \<in> set (equivAbsorbState ?P). fst e < length (state ?P) \<and> snd e < length (state ?P)"
    by (simp add: exampleProfile_def)
  note T = C1_seqCoords_invariant [where P = ?P and sub = ?sub and dsq = "[0, 0, 2]" and sq = ?sq
      and isWildcard = ?w and alph = "''ACGT''" and cpts = 1 and rowIndex = 7]
  from T [THEN conjunct1, THEN mp, OF h1]
  have leaf: "\<exists>L. leafProfile ?w [0, 0, 2] 1 ''ACGT'' ?sq 7 = Inr L \<and>
        seqCoordsConsistent L \<and> assertSeqCoordsConsistent L = None" .
  from T [THEN conjunct2, THEN conjunct1, THEN mp, OF h2]
  obtain Q where Q: "leftMultiply ?sub ?P = Inr Q" ..
  from T [where Q = Q, THEN conjunct2, THEN conjunct2, THEN conjunct1] c1 Q
  have q1: "seqCoordsConsistent Q" by blast
  from T [where Q = Q, THEN conjunct2, THEN conjunct2, THEN conjunct2, THEN conjunct1] c2 Q
  have q2: "assertSeqCoordsConsistent Q = None" by blast
  from T [THEN conjunct2, THEN conjunct2, THEN conjunct2, THEN conjunct2, THEN conjunct1] c1 h3
  obtain R where R: "addReadyStates ?P = Inr R" by blast
  from T [where R = R, THEN conjunct2, THEN conjunct2, THEN conjunct2, THEN conjunct2,
      THEN conjunct2, THEN conjunct1] c1 R
  have r1: "seqCoordsConsistent R" by blast
  from T [where R = R, THEN conjunct2, THEN conjunct2, THEN conjunct2, THEN conjunct2,
      THEN conjunct2, THEN conjunct2] c2 R
  have r2: "assertSeqCoordsConsistent R = None" by blast
  from c1 c2 leaf Q q1 q2 R r1 r2 show ?thesis by blast
qed

end
